theory Spec2Isabelle
  imports Main
begin

section \<open>Bytes, buffers and the store\<close>

text \<open>
  A byte is a \<^typ>\<open>char\<close> (an 8-bit value in Isabelle/HOL). A Node \<open>Buffer\<close> is a view on
  allocated memory; two views can share memory (\<open>subarray\<close>) or not (\<open>Buffer.alloc\<close>,
  \<open>Buffer.from\<close>). The store is the list of the regions allocated so far, so that a new
  region always gets the address \<open>length h\<close>, which no older view mentions.
  Every view that dynBuf.ts creates starts at index 0 of its parent, so a view is a region
  and a length. JavaScript numbers used as lengths and indices are integers (\<^typ>\<open>int\<close>),
  and a Buffer can have any size: the limit of \<open>Buffer.alloc\<close> is not modelled.
\<close>

type_synonym byte = char
type_synonym addr = nat
type_synonym store = "byte list list"

abbreviation LF :: byte where
  "LF \<equiv> CHR 0x0A"

abbreviation NUL :: byte where
  "NUL \<equiv> CHR 0x00"

datatype error = Error string | RangeError string

record Buffer =
  region :: addr
  blen :: nat

definition cells :: "store \<Rightarrow> addr \<Rightarrow> byte list" where
  "cells h a = (if a < length h then h ! a else [])"

definition bytes :: "store \<Rightarrow> Buffer \<Rightarrow> byte list" where
  "bytes h b = take (blen b) (cells h (region b))"

definition alloc :: "store \<Rightarrow> nat \<Rightarrow> store \<times> Buffer" where
  \<comment> \<open>\<open>Buffer.alloc(size)\<close>: a new zero-filled region.\<close>
  "alloc h n = (h @ [replicate n NUL], \<lparr>region = length h, blen = n\<rparr>)"

definition buffer_from :: "store \<Rightarrow> Buffer \<Rightarrow> store \<times> Buffer" where
  \<comment> \<open>\<open>Buffer.from(buffer)\<close>: a new region holding a copy of the view's bytes.\<close>
  "buffer_from h v = (h @ [bytes h v], \<lparr>region = length h, blen = blen v\<rparr>)"

definition rel_index :: "nat \<Rightarrow> int \<Rightarrow> nat" where
  \<comment> \<open>A relative index of \<open>subarray\<close> and \<open>copyWithin\<close>: negative counts from the end,
      and the result is clamped to \<open>0..len\<close>.\<close>
  "rel_index len i = (if i < 0 then nat (max (int len + i) 0) else min (nat i) len)"

definition subarray0 :: "Buffer \<Rightarrow> int \<Rightarrow> Buffer" where
  \<comment> \<open>\<open>b.subarray(0, end)\<close>: a view on the same memory.\<close>
  "subarray0 b e = b\<lparr>blen := rel_index (blen b) e\<rparr>"

definition buf_copy :: "store \<Rightarrow> byte list \<Rightarrow> Buffer \<Rightarrow> int \<Rightarrow> error + store" where
  \<comment> \<open>\<open>source.copy(target, targetStart, 0)\<close>, \<open>src\<close> being the bytes of \<open>source\<close> at the
      call (the copy is a memmove). A negative \<open>targetStart\<close> raises; a start at or
      beyond the target's end copies nothing; otherwise as many bytes as fit are copied.\<close>
  "buf_copy h src tgt tstart =
     (if tstart < 0 then Inl (RangeError ''targetStart'')
      else if int (blen tgt) \<le> tstart \<or> src = [] then Inr h
      else
        let nb = min (length src) (blen tgt - nat tstart);
            old = cells h (region tgt)
        in Inr (h[region tgt := take (nat tstart) old @ take nb src @ drop (nat tstart + nb) old]))"

definition copyWithin :: "store \<Rightarrow> Buffer \<Rightarrow> int \<Rightarrow> int \<Rightarrow> int \<Rightarrow> store" where
  \<comment> \<open>\<open>b.copyWithin(target, start, end)\<close>: an overlapping move inside the view.\<close>
  "copyWithin h b target start end =
     (let len = blen b;
          to = rel_index len target;
          from = rel_index len start;
          final = rel_index len end;
          count = min (int final - int from) (int len - int to)
      in if 0 < count then
           let old = cells h (region b)
           in h[region b := take to old @ take (nat count) (drop from old) @ drop (to + nat count) old]
         else h)"

fun indexOf :: "byte list \<Rightarrow> byte \<Rightarrow> int" where
  \<comment> \<open>\<open>indexOf\<close> of a one-byte string: the index of its first occurrence, or -1.\<close>
  "indexOf [] c = - 1"
| "indexOf (x # xs) c =
     (if x = c then 0 else (let i = indexOf xs c in if i < 0 then - 1 else i + 1))"

section \<open>dynBuf.ts\<close>

record DynBuf =
  data :: Buffer
  length' :: int

function growCap :: "nat \<Rightarrow> int \<Rightarrow> nat" where
  \<comment> \<open>\<open>while (cap < newLen) cap *= 2\<close>. The loop is entered with \<open>cap \<ge> 32\<close> only; the
      test \<open>0 < cap\<close> makes the function total and never fails there (lemma \<open>growCap_loop\<close>).\<close>
  "growCap cap newLen = (if int cap < newLen \<and> 0 < cap then growCap (cap * 2) newLen else cap)"
  by pat_completeness auto
termination
  by (relation "measure (\<lambda>(cap, newLen). nat newLen - cap)") auto

declare growCap.simps [simp del]

definition bufPush :: "store \<Rightarrow> DynBuf \<Rightarrow> byte list \<Rightarrow> error + store \<times> DynBuf" where
  \<comment> \<open>\<open>d\<close> is the bytes of the chunk \<open>data\<close>, which \<open>bufPush\<close> only reads. The result is
      the exception that leaves \<open>bufPush\<close> (a negative \<open>buf.length\<close> makes \<open>copy\<close> raise), or
      the store and the buffer when it returns.\<close>
  "bufPush h buf d =
     (let newLen = length' buf + int (length d) in
      case (if int (blen (data buf)) < newLen then
              (let cap = growCap (max (blen (data buf)) 32) newLen;
                   (h1, grownBuf) = alloc h cap
               in case buf_copy h1 (bytes h1 (data buf)) grownBuf 0 of
                    Inl e \<Rightarrow> Inl e
                  | Inr h2 \<Rightarrow> Inr (h2, buf\<lparr>data := grownBuf\<rparr>))
            else Inr (h, buf)) of
        Inl e \<Rightarrow> Inl e
      | Inr (h3, buf3) \<Rightarrow>
          (case buf_copy h3 d (data buf3) (length' buf3) of
             Inl e \<Rightarrow> Inl e
           | Inr h4 \<Rightarrow> Inr (h4, buf3\<lparr>length' := newLen\<rparr>)))"

definition bufPop :: "store \<Rightarrow> DynBuf \<Rightarrow> int \<Rightarrow> store \<times> DynBuf" where
  "bufPop h buf len =
     (copyWithin h (data buf) 0 len (length' buf), buf\<lparr>length' := length' buf - len\<rparr>)"

definition cutMessage :: "store \<Rightarrow> DynBuf \<Rightarrow> store \<times> DynBuf \<times> Buffer option" where
  "cutMessage h buf =
     (let delimIdx = indexOf (bytes h (subarray0 (data buf) (length' buf))) LF in
      if delimIdx < 0 then (h, buf, None)
      else
        let (h1, msg) = buffer_from h (subarray0 (data buf) (delimIdx + 1));
            (h2, buf2) = bufPop h1 buf (delimIdx + 1)
        in (h2, buf2, Some msg))"

text \<open>The second copy of \<open>bufPush\<close> in dynBuf.ts: it also assigns \<open>buf.length = cap\<close>
  when it grows the storage.\<close>

definition bufPush_v2 :: "store \<Rightarrow> DynBuf \<Rightarrow> byte list \<Rightarrow> error + store \<times> DynBuf" where
  "bufPush_v2 h buf d =
     (let newLen = length' buf + int (length d) in
      case (if int (blen (data buf)) < newLen then
              (let cap = growCap (max (blen (data buf)) 32) newLen;
                   (h1, grownBuf) = alloc h cap
               in case buf_copy h1 (bytes h1 (data buf)) grownBuf 0 of
                    Inl e \<Rightarrow> Inl e
                  | Inr h2 \<Rightarrow> Inr (h2, buf\<lparr>data := grownBuf, length' := int cap\<rparr>))
            else Inr (h, buf)) of
        Inl e \<Rightarrow> Inl e
      | Inr (h3, buf3) \<Rightarrow>
          (case buf_copy h3 d (data buf3) (length' buf3) of
             Inl e \<Rightarrow> Inl e
           | Inr h4 \<Rightarrow> Inr (h4, buf3\<lparr>length' := newLen\<rparr>)))"

subsection \<open>Well-formed buffers and operation sequences\<close>

definition allocated :: "store \<Rightarrow> Buffer \<Rightarrow> bool" where
  "allocated h b \<longleftrightarrow> region b < length h \<and> blen b \<le> length (cells h (region b))"

definition wf :: "store \<Rightarrow> DynBuf \<Rightarrow> bool" where
  \<comment> \<open>The storage exists and \<open>0 \<le> length \<le> capacity\<close>.\<close>
  "wf h buf \<longleftrightarrow>
     allocated h (data buf) \<and> 0 \<le> length' buf \<and> length' buf \<le> int (blen (data buf))"

definition valid :: "store \<Rightarrow> DynBuf \<Rightarrow> byte list" where
  \<comment> \<open>The valid region, read as \<open>cutMessage\<close> reads it: \<open>buf.data.subarray(0, buf.length)\<close>.\<close>
  "valid h buf = bytes h (subarray0 (data buf) (length' buf))"

definition capacity :: "DynBuf \<Rightarrow> nat" where
  \<comment> \<open>\<open>buf.data.length\<close>\<close>
  "capacity buf = blen (data buf)"

definition firstMsg :: "byte list \<Rightarrow> byte list" where
  \<comment> \<open>The bytes of a stream up to and including its first delimiter.\<close>
  "firstMsg s = takeWhile (\<lambda>x. x \<noteq> LF) s @ [LF]"

datatype bufop = Push "byte list" | Pop int

fun apply_op :: "store \<times> DynBuf \<Rightarrow> bufop \<Rightarrow> error + store \<times> DynBuf" where
  "apply_op (h, b) (Push d) = bufPush h b d"
| "apply_op (h, b) (Pop n) = Inr (bufPop h b n)"

fun run_ops :: "store \<times> DynBuf \<Rightarrow> bufop list \<Rightarrow> error + store \<times> DynBuf" where
  "run_ops s [] = Inr s"
| "run_ops s (x # xs) = (case apply_op s x of Inl e \<Rightarrow> Inl e | Inr s' \<Rightarrow> run_ops s' xs)"

fun pre_ok :: "store \<times> DynBuf \<Rightarrow> bufop list \<Rightarrow> bool" where
  \<comment> \<open>Every \<open>bufPop(buf, len)\<close> of the sequence is called with \<open>0 \<le> len \<le> buf.length\<close>.\<close>
  "pre_ok s [] = True"
| "pre_ok s (x # xs) =
     ((case x of Pop n \<Rightarrow> 0 \<le> n \<and> n \<le> length' (snd s) | Push d \<Rightarrow> True) \<and>
      (case apply_op s x of Inl e \<Rightarrow> True | Inr s' \<Rightarrow> pre_ok s' xs))"

fun cutN :: "nat \<Rightarrow> store \<Rightarrow> DynBuf \<Rightarrow> store \<times> DynBuf \<times> byte list option list" where
  \<comment> \<open>\<open>n\<close> successive \<open>cutMessage\<close> calls; each result is \<open>None\<close> for null, or the bytes
      of the returned Buffer when the call returns.\<close>
  "cutN 0 h b = (h, b, [])"
| "cutN (Suc n) h b =
     (let (h1, b1, m) = cutMessage h b;
          (h2, b2, ms) = cutN n h1 b1
      in (h2, b2, map_option (bytes h1) m # ms))"

section \<open>The connection adapter and the serving loop\<close>

text \<open>
  The socket is the transport: whether it delivers data (\<open>resume\<close>/\<open>pause\<close>), the chunks
  handed to \<open>socket.write\<close> so far, and whether it was destroyed. A promise returned by
  \<open>soRead\<close> or \<open>soWrite\<close> is described by how it is settled, at once or by a later event.
\<close>

record Socket =
  flowing :: bool
  written :: "byte list list"
  destroyed :: bool

datatype callbacks = Callbacks

record TCPConn =
  socket :: Socket
  err :: "error option"
  ended :: bool
  reader :: "callbacks option"

datatype 'a settled = Resolved 'a | Rejected error

datatype read_result =
    ReadThrew error
  | ReadRejected error
  | ReadResolved "byte list"
  | ReadPending

datatype write_result =
    WriteRejected error
  | WritePending

definition soWrite :: "TCPConn \<Rightarrow> byte list \<Rightarrow> TCPConn \<times> write_result" where
  \<comment> \<open>An \<open>async\<close> function: its \<open>throw\<close> rejects the returned promise. After
      \<open>socket.write\<close> the promise stays pending until the transport calls back.\<close>
  "soWrite conn d =
     (if length d = 0 then (conn, WriteRejected (Error ''Data length must be greater than 0''))
      else case err conn of
        Some e \<Rightarrow> (conn, WriteRejected e)
      | None \<Rightarrow>
          (conn\<lparr>socket := (socket conn)\<lparr>written := written (socket conn) @ [d]\<rparr>\<rparr>, WritePending))"

definition writeCallback :: "error option \<Rightarrow> unit settled" where
  \<comment> \<open>The callback given to \<open>socket.write\<close>.\<close>
  "writeCallback e = (case e of Some x \<Rightarrow> Rejected x | None \<Rightarrow> Resolved ())"

definition soRead :: "TCPConn \<Rightarrow> TCPConn \<times> read_result" where
  "soRead conn =
     (if reader conn \<noteq> None then (conn, ReadThrew (Error ''Concurrent read operations not allowed''))
      else case err conn of
        Some e \<Rightarrow> (conn, ReadRejected e)
      | None \<Rightarrow>
          if ended conn then (conn, ReadResolved [])
          else (conn\<lparr>reader := Some Callbacks, socket := (socket conn)\<lparr>flowing := True\<rparr>\<rparr>,
                ReadPending))"

definition soInit :: "Socket \<Rightarrow> TCPConn" where
  "soInit sock = \<lparr>socket = sock, err = None, ended = False, reader = None\<rparr>"

text \<open>The three listeners that \<open>soInit\<close> registers. Each returns the connection and how it
  settles the promise of the current read, if it does.\<close>

definition onData :: "TCPConn \<Rightarrow> byte list \<Rightarrow> error + TCPConn \<times> byte list settled option" where
  "onData conn d =
     (case reader conn of
        None \<Rightarrow> Inl (Error ''No reader available'')
      | Some r \<Rightarrow>
          Inr (conn\<lparr>socket := (socket conn)\<lparr>flowing := False\<rparr>, reader := None\<rparr>,
               Some (Resolved d)))"

definition onEnd :: "TCPConn \<Rightarrow> TCPConn \<times> byte list settled option" where
  "onEnd conn =
     (let c = conn\<lparr>ended := True\<rparr> in
      case reader c of
        Some r \<Rightarrow> (c\<lparr>reader := None\<rparr>, Some (Resolved []))
      | None \<Rightarrow> (c, None))"

definition onError :: "TCPConn \<Rightarrow> error \<Rightarrow> TCPConn \<times> byte list settled option" where
  "onError conn e =
     (let c = conn\<lparr>err := Some e\<rparr> in
      case reader c of
        Some r \<Rightarrow> (c\<lparr>reader := None\<rparr>, Some (Rejected e))
      | None \<Rightarrow> (c, None))"

datatype event = OnData "byte list" | OnEnd | OnError error

fun handle :: "TCPConn \<Rightarrow> event \<Rightarrow> error + TCPConn \<times> byte list settled option" where
  "handle c (OnData d) = onData c d"
| "handle c OnEnd = Inr (onEnd c)"
| "handle c (OnError e) = Inr (onError c e)"

text \<open>Histories of a connection: socket events and calls of \<open>soRead\<close> and \<open>soWrite\<close>, in any
  order. An exception thrown by \<open>soRead\<close> goes to the caller and leaves the connection as
  it is; an exception of the data listener is uncaught and ends the history.\<close>

datatype call = Ev event | CallRead | CallWrite "byte list"

fun conn_step :: "TCPConn \<Rightarrow> call \<Rightarrow> error + TCPConn" where
  "conn_step c (Ev ev) = (case handle c ev of Inl e \<Rightarrow> Inl e | Inr (c', r) \<Rightarrow> Inr c')"
| "conn_step c CallRead = Inr (fst (soRead c))"
| "conn_step c (CallWrite d) = Inr (fst (soWrite c d))"

fun conn_run :: "TCPConn \<Rightarrow> call list \<Rightarrow> error + TCPConn" where
  "conn_run c [] = Inr c"
| "conn_run c (x # xs) = (case conn_step c x of Inl e \<Rightarrow> Inl e | Inr c' \<Rightarrow> conn_run c' xs)"

subsection \<open>serveClient\<close>

text \<open>
  \<open>serveClient\<close> is suspended at \<open>await soRead\<close> or at \<open>await soWrite\<close> and goes on when
  the promise is settled: by a socket event, or by the transport's write callback. It is
  a machine over these inputs; a run that ends in \<open>AwaitRead\<close> or \<open>AwaitWrite\<close> has not
  returned.
\<close>

datatype phase = AwaitRead | AwaitWrite | Finished "unit settled" | Crashed error

datatype input = Sock event | WriteCb "error option"

definition afterRead :: "TCPConn \<Rightarrow> byte list \<Rightarrow> TCPConn \<times> phase" where
  \<comment> \<open>The loop body after \<open>await soRead(conn)\<close> gave \<open>d\<close>.\<close>
  "afterRead c d =
     (if length d = 0 then (c, Finished (Resolved ()))
      else case soWrite c d of
        (c', WriteRejected e) \<Rightarrow> (c', Finished (Rejected e))
      | (c', WritePending) \<Rightarrow> (c', AwaitWrite))"

definition loopHead :: "TCPConn \<Rightarrow> TCPConn \<times> phase" where
  \<comment> \<open>The top of \<open>while (true)\<close>: \<open>await soRead(conn)\<close>.\<close>
  "loopHead c =
     (case soRead c of
        (c', ReadThrew e) \<Rightarrow> (c', Finished (Rejected e))
      | (c', ReadRejected e) \<Rightarrow> (c', Finished (Rejected e))
      | (c', ReadResolved d) \<Rightarrow> afterRead c' d
      | (c', ReadPending) \<Rightarrow> (c', AwaitRead))"

fun deliver :: "TCPConn \<times> phase \<Rightarrow> input \<Rightarrow> TCPConn \<times> phase" where
  "deliver (c, Finished r) i = (c, Finished r)"
| "deliver (c, Crashed e) i = (c, Crashed e)"
| "deliver (c, ph) (Sock ev) =
     (case handle c ev of
        Inl e \<Rightarrow> (c, Crashed e)
      | Inr (c', None) \<Rightarrow> (c', ph)
      | Inr (c', Some (Resolved d)) \<Rightarrow> afterRead c' d
      | Inr (c', Some (Rejected e)) \<Rightarrow> (c', Finished (Rejected e)))"
| "deliver (c, AwaitWrite) (WriteCb w) =
     (case writeCallback w of
        Rejected e \<Rightarrow> (c, Finished (Rejected e))
      | Resolved u \<Rightarrow> loopHead c)"
| "deliver (c, AwaitRead) (WriteCb w) = (c, AwaitRead)"

definition serveClient :: "Socket \<Rightarrow> input list \<Rightarrow> TCPConn \<times> phase" where
  "serveClient sock ins = foldl deliver (loopHead (soInit sock)) ins"

definition newConn :: "Socket \<Rightarrow> input list \<Rightarrow> TCPConn \<times> phase" where
  \<comment> \<open>\<open>try { await serveClient(socket) } catch { log } finally { socket.destroy() }\<close>\<close>
  "newConn sock ins =
     (case serveClient sock ins of
        (c, Finished r) \<Rightarrow> (c\<lparr>socket := (socket c)\<lparr>destroyed := True\<rparr>\<rparr>, Finished r)
      | (c, ph) \<Rightarrow> (c, ph))"

definition echoScript :: "byte list list \<Rightarrow> input list" where
  \<comment> \<open>The chunks arrive one per read, and the transport accepts every write.\<close>
  "echoScript chunks = concat (map (\<lambda>d. [Sock (OnData d), WriteCb None]) chunks)"

subsection \<open>The serving loop that frames messages\<close>

text \<open>
  \<open>serveClient\<close> above hands back what it reads. The serving loop that frames messages
  (sections 4.3 and 6 of the specification), the one that e2e.test.ts tests on port 8000,
  has no source file here. It is modelled from the specification, on \<open>soInit\<close>, \<open>soRead\<close>,
  \<open>soWrite\<close>, \<open>bufPush\<close> and \<open>cutMessage\<close> as the sources have them. The loop is suspended
  at a read, or at the write of a reply; \<open>FAwaitWrite True\<close> is the write of the closing
  reply.
\<close>

definition quitMsg :: "byte list" where
  \<comment> \<open>Modelled from the spec: the quit sentinel of the serving loop that frames
      messages, the request message "quit" and a newline.\<close>
  "quitMsg = ''quit'' @ [LF]"

definition frameReply :: "byte list \<Rightarrow> byte list" where
  \<comment> \<open>Modelled from the spec: the quit message triggers the fixed reply "Bye." and a
      newline; any other message triggers the prefix "Echo: " followed by the message
      bytes, delimiter included.\<close>
  "frameReply msg = (if msg = quitMsg then ''Bye.'' @ [LF] else ''Echo: '' @ msg)"

datatype fphase = FAwaitRead | FAwaitWrite bool | FFinished "unit settled" | FCrashed error

type_synonym fstate = "(TCPConn \<times> store \<times> DynBuf) \<times> fphase"

definition frameProcess :: "TCPConn \<Rightarrow> store \<Rightarrow> DynBuf \<Rightarrow> Buffer \<Rightarrow> fstate" where
  \<comment> \<open>Modelled from the spec: process a message: write its reply, and wait until the
      transport has accepted it; after the reply to the quit message the loop terminates.\<close>
  "frameProcess c h b msg =
     (case soWrite c (frameReply (bytes h msg)) of
        (c', WriteRejected e) \<Rightarrow> ((c', h, b), FFinished (Rejected e))
      | (c', WritePending) \<Rightarrow> ((c', h, b), FAwaitWrite (bytes h msg = quitMsg)))"

definition frameRead :: "TCPConn \<Rightarrow> store \<Rightarrow> DynBuf \<Rightarrow> fstate" where
  \<comment> \<open>Modelled from the spec: the loop requests the next read. A read that completes at
      once is the empty result of an ended connection or the latched error, and the loop
      stops.\<close>
  "frameRead c h b =
     (case soRead c of
        (c', ReadThrew e) \<Rightarrow> ((c', h, b), FFinished (Rejected e))
      | (c', ReadRejected e) \<Rightarrow> ((c', h, b), FFinished (Rejected e))
      | (c', ReadResolved d) \<Rightarrow> ((c', h, b), FFinished (Resolved ()))
      | (c', ReadPending) \<Rightarrow> ((c', h, b), FAwaitRead))"

definition frameDrain :: "TCPConn \<Rightarrow> store \<Rightarrow> DynBuf \<Rightarrow> fstate" where
  \<comment> \<open>Modelled from the spec: while \<open>extractMessage\<close> yields a message, process it; when
      it yields none, loop to the next read.\<close>
  "frameDrain c h b =
     (case cutMessage h b of
        (h1, b1, Some msg) \<Rightarrow> frameProcess c h1 b1 msg
      | (h1, b1, None) \<Rightarrow> frameRead c h1 b1)"

definition frameData :: "TCPConn \<Rightarrow> store \<Rightarrow> DynBuf \<Rightarrow> byte list \<Rightarrow> fstate" where
  \<comment> \<open>Modelled from the spec: what the loop does with the result \<open>d\<close> of a read: if empty,
      stop; else append it to the buffer and extract messages.\<close>
  "frameData c h b d =
     (if length d = 0 then ((c, h, b), FFinished (Resolved ()))
      else case bufPush h b d of
        Inl e \<Rightarrow> ((c, h, b), FFinished (Rejected e))
      | Inr (h1, b1) \<Rightarrow> frameDrain c h1 b1)"

fun frameDeliver :: "fstate \<Rightarrow> input \<Rightarrow> fstate" where
  \<comment> \<open>Modelled from the spec: the loop is suspended at a read or at a write and goes on
      when a socket event or the transport's write callback settles it.\<close>
  "frameDeliver (s, FFinished r) i = (s, FFinished r)"
| "frameDeliver (s, FCrashed e) i = (s, FCrashed e)"
| "frameDeliver ((c, h, b), ph) (Sock ev) =
     (case handle c ev of
        Inl e \<Rightarrow> ((c, h, b), FCrashed e)
      | Inr (c', None) \<Rightarrow> ((c', h, b), ph)
      | Inr (c', Some (Resolved d)) \<Rightarrow> frameData c' h b d
      | Inr (c', Some (Rejected e)) \<Rightarrow> ((c', h, b), FFinished (Rejected e)))"
| "frameDeliver ((c, h, b), FAwaitWrite quit) (WriteCb w) =
     (case writeCallback w of
        Rejected e \<Rightarrow> ((c, h, b), FFinished (Rejected e))
      | Resolved u \<Rightarrow> if quit then ((c, h, b), FFinished (Resolved ())) else frameDrain c h b)"
| "frameDeliver (s, FAwaitRead) (WriteCb w) = (s, FAwaitRead)"

definition frameClose :: "fstate \<Rightarrow> fstate" where
  \<comment> \<open>Modelled from the spec: on loop exit for any reason, the transport is closed.\<close>
  "frameClose s =
     (case s of
        ((c, h, b), FFinished r) \<Rightarrow>
          ((c\<lparr>socket := (socket c)\<lparr>destroyed := True\<rparr>\<rparr>, h, b), FFinished r)
      | ((c, h, b), ph) \<Rightarrow> ((c, h, b), ph))"

definition frameServe :: "Socket \<Rightarrow> input list \<Rightarrow> fstate" where
  \<comment> \<open>Modelled from the spec: a connection is served with a buffer created empty, and the
      loop starts with a read.\<close>
  "frameServe sock ins =
     frameClose (foldl frameDeliver
       (frameRead (soInit sock) [[]] \<lparr>data = \<lparr>region = 0, blen = 0\<rparr>, length' = 0\<rparr>) ins)"

subsection \<open>Invariants of the connection\<close>

definition conn_inv :: "TCPConn \<Rightarrow> bool" where
  \<comment> \<open>A read is pending only while nothing is latched.\<close>
  "conn_inv c \<longleftrightarrow> (reader c \<noteq> None \<longrightarrow> \<not> ended c \<and> err c = None)"

definition awaiting :: "TCPConn \<Rightarrow> bool" where
  \<comment> \<open>The state of a connection whose loop waits for data.\<close>
  "awaiting c \<longleftrightarrow> reader c = Some Callbacks \<and> err c = None \<and> \<not> ended c \<and> flowing (socket c)"

section \<open>Properties of the buffer primitives\<close>

lemma growCap_loop:
  "0 < cap \<Longrightarrow> growCap cap n = (if int cap < n then growCap (cap * 2) n else cap)"
  by (subst growCap.simps) simp

lemma growCap_form:
  "0 < cap \<Longrightarrow> \<exists>k. growCap cap n = cap * 2 ^ k"
proof (induction cap n rule: growCap.induct)
  case (1 cap newLen)
  show ?case
  proof (cases "int cap < newLen")
    case True
    with 1 obtain k where "growCap (cap * 2) newLen = cap * 2 * 2 ^ k" by auto
    then have "growCap cap newLen = cap * 2 ^ Suc k"
      using True 1(2) by (subst growCap.simps) simp
    then show ?thesis by blast
  next
    case False
    then have "growCap cap newLen = cap * 2 ^ 0" by (subst growCap.simps) simp
    then show ?thesis by blast
  qed
qed

lemma growCap_ge: "0 < cap \<Longrightarrow> n \<le> int (growCap cap n)"
proof (induction cap n rule: growCap.induct)
  case (1 cap newLen)
  then show ?case by (subst growCap.simps) auto
qed

lemma growCap_mono: "cap \<le> growCap cap n"
proof (induction cap n rule: growCap.induct)
  case (1 cap newLen)
  then show ?case by (subst growCap.simps) auto
qed

lemma valid_wf: "wf h b \<Longrightarrow> valid h b = take (nat (length' b)) (cells h (region (data b)))"
  by (auto simp: wf_def valid_def bytes_def subarray0_def rel_index_def min_def)

lemma indexOf_neg: "indexOf bs c < 0 \<longleftrightarrow> c \<notin> set bs"
  by (induction bs) (auto simp: Let_def)

lemma indexOf_found: "c \<in> set bs \<Longrightarrow> indexOf bs c = int (length (takeWhile (\<lambda>x. x \<noteq> c) bs))"
  by (induction bs) (auto simp: Let_def indexOf_neg)

lemma cells_append_old: "a < length h \<Longrightarrow> cells (h @ [x]) a = cells h a"
  by (simp add: cells_def nth_append)

lemma cells_append_new: "cells (h @ [x]) (length h) = x"
  by (simp add: cells_def)

lemma cells_update_same: "a < length h \<Longrightarrow> cells (h[a := x]) a = x"
  by (simp add: cells_def)

lemma cells_update_other: "a \<noteq> a' \<Longrightarrow> cells (h[a' := x]) a = cells h a"
  by (simp add: cells_def)

lemma buf_copy_ok:
  assumes "allocated h tgt" "0 \<le> ts" "ts + int (length src) \<le> int (blen tgt)"
  shows "\<exists>h'. buf_copy h src tgt ts = Inr h' \<and> length h' = length h
           \<and> cells h' (region tgt) =
               take (nat ts) (cells h (region tgt)) @ src @ drop (nat ts + length src) (cells h (region tgt))
           \<and> (\<forall>a. a \<noteq> region tgt \<longrightarrow> cells h' a = cells h a)"
proof (cases "int (blen tgt) \<le> ts \<or> src = []")
  case True
  have "src = []"
  proof (rule ccontr)
    assume "src \<noteq> []"
    then have "0 < length src" by simp
    with True assms show False by auto
  qed
  with assms show ?thesis by (simp add: buf_copy_def)
next
  case False
  with assms have nb: "min (length src) (blen tgt - nat ts) = length src" by auto
  from assms have r: "region tgt < length h" by (simp add: allocated_def)
  from False assms have "buf_copy h src tgt ts =
      Inr (h[region tgt := take (nat ts) (cells h (region tgt)) @ src
                @ drop (nat ts + length src) (cells h (region tgt))])"
    by (simp add: buf_copy_def Let_def nb)
  with r show ?thesis by (simp add: cells_update_same cells_update_other)
qed

lemma bufPush_nogrow:
  assumes "wf h b" "length' b + int (length d) \<le> int (blen (data b))"
  shows "\<exists>h'. bufPush h b d = Inr (h', b\<lparr>length' := length' b + int (length d)\<rparr>)
           \<and> length h' = length h
           \<and> cells h' (region (data b)) =
               take (nat (length' b)) (cells h (region (data b))) @ d
                 @ drop (nat (length' b) + length d) (cells h (region (data b)))
           \<and> (\<forall>a. a \<noteq> region (data b) \<longrightarrow> cells h' a = cells h a)"
proof -
  from assms have a: "allocated h (data b)" and l: "0 \<le> length' b" by (simp_all add: wf_def)
  from buf_copy_ok [OF a l assms(2)] obtain h' where
    h': "buf_copy h d (data b) (length' b) = Inr h'" "length h' = length h"
      "cells h' (region (data b)) =
               take (nat (length' b)) (cells h (region (data b))) @ d
                 @ drop (nat (length' b) + length d) (cells h (region (data b)))"
      "\<forall>a. a \<noteq> region (data b) \<longrightarrow> cells h' a = cells h a"
    by blast
  from assms(2) h'(1) have "bufPush h b d = Inr (h', b\<lparr>length' := length' b + int (length d)\<rparr>)"
    by (simp add: bufPush_def Let_def)
  with h' show ?thesis by blast
qed

lemma bufPush_grow:
  assumes "wf h b" "int (blen (data b)) < length' b + int (length d)"
  defines "cap \<equiv> growCap (max (blen (data b)) 32) (length' b + int (length d))"
  shows "\<exists>h'. bufPush h b d =
             Inr (h', \<lparr>data = \<lparr>region = length h, blen = cap\<rparr>, length' = length' b + int (length d)\<rparr>)
           \<and> length h' = Suc (length h)
           \<and> cells h' (length h) =
               take (nat (length' b)) (cells h (region (data b))) @ d
                 @ replicate (cap - (nat (length' b) + length d)) NUL
           \<and> (\<forall>a. a \<noteq> length h \<longrightarrow> cells h' a = cells h a)"
proof -
  let ?L = "length' b" and ?r = "region (data b)" and ?n = "blen (data b)"
  let ?g = "\<lparr>region = length h, blen = cap\<rparr>"
  let ?h1 = "h @ [replicate cap NUL]"
  let ?src = "take ?n (cells h ?r)"
  from assms have a: "allocated h (data b)" and l: "0 \<le> ?L" "?L \<le> int ?n"
    by (simp_all add: wf_def)
  from a have r: "?r < length h" and n: "?n \<le> length (cells h ?r)" by (simp_all add: allocated_def)
  have capn: "?n \<le> cap" and cap32: "32 \<le> cap"
    using growCap_mono [of "max ?n 32" "?L + int (length d)"] by (simp_all add: cap_def)
  have capge: "?L + int (length d) \<le> int cap"
    using growCap_ge [of "max ?n 32" "?L + int (length d)"] by (simp add: cap_def)
  have src: "bytes ?h1 (data b) = ?src" "length ?src = ?n"
    using r n by (simp_all add: bytes_def cells_append_old)
  have ag: "allocated ?h1 ?g" by (simp add: allocated_def cells_append_new)
  have "(0::int) + int (length ?src) \<le> int (blen ?g)" using capn src(2) by simp
  from buf_copy_ok [OF ag _ this] obtain h2 where
    h2: "buf_copy ?h1 ?src ?g 0 = Inr h2" "length h2 = length ?h1"
      "cells h2 (length h) = ?src @ drop ?n (replicate cap NUL)"
      "\<forall>a. a \<noteq> length h \<longrightarrow> cells h2 a = cells ?h1 a"
    using src(2) by (auto simp: cells_append_new)
  have ag2: "allocated h2 ?g" using h2 capn src(2) by (simp add: allocated_def)
  from buf_copy_ok [OF ag2 l(1), of d] capge obtain h3 where
    h3: "buf_copy h2 d ?g ?L = Inr h3" "length h3 = length h2"
      "cells h3 (length h) = take (nat ?L) (cells h2 (length h)) @ d
          @ drop (nat ?L + length d) (cells h2 (length h))"
      "\<forall>a. a \<noteq> length h \<longrightarrow> cells h3 a = cells h2 a"
    by auto
  have "bufPush h b d = Inr (h3, \<lparr>data = ?g, length' = ?L + int (length d)\<rparr>)"
    using assms(2) h2(1) h3(1) src(1)
    by (simp add: bufPush_def Let_def alloc_def cap_def [symmetric])
  moreover have "take (nat ?L) (cells h2 (length h)) = take (nat ?L) (cells h ?r)"
  proof -
    have "nat ?L \<le> ?n" using l by simp
    then show ?thesis using h2(3) n by (simp add: min_absorb1)
  qed
  moreover have "drop (nat ?L + length d) (cells h2 (length h))
      = replicate (cap - (nat ?L + length d)) NUL"
  proof -
    have "?n \<le> nat ?L + length d" using assms(2) l by linarith
    then show ?thesis using h2(3) src(2) by simp
  qed
  moreover have "\<forall>a. a \<noteq> length h \<longrightarrow> cells h3 a = cells h a"
    using h3(4) h2(4) by (auto simp: cells_def nth_append)
  ultimately show ?thesis using h3 h2(2) by auto
qed

lemma bufPush_ok:
  assumes "wf h b"
  shows "\<exists>h' b'. bufPush h b d = Inr (h', b') \<and> wf h' b'
           \<and> valid h' b' = valid h b @ d
           \<and> length' b' = length' b + int (length d)
           \<and> length h \<le> length h'
           \<and> (data b' = data b \<or> length h \<le> region (data b'))
           \<and> (\<forall>a. a \<noteq> region (data b') \<longrightarrow> cells h' a = cells h a)"
proof (cases "int (blen (data b)) < length' b + int (length d)")
  case False
  let ?b' = "b\<lparr>length' := length' b + int (length d)\<rparr>"
  from False have le: "length' b + int (length d) \<le> int (blen (data b))" by simp
  from bufPush_nogrow [OF assms le] obtain h' where
    h': "bufPush h b d = Inr (h', ?b')" "length h' = length h"
      "cells h' (region (data b)) =
               take (nat (length' b)) (cells h (region (data b))) @ d
                 @ drop (nat (length' b) + length d) (cells h (region (data b)))"
      "\<forall>a. a \<noteq> region (data b) \<longrightarrow> cells h' a = cells h a"
    by blast
  from assms have a: "region (data b) < length h" "blen (data b) \<le> length (cells h (region (data b)))"
    and l: "0 \<le> length' b" by (simp_all add: wf_def allocated_def)
  have len: "length (cells h' (region (data b))) = length (cells h (region (data b)))"
    using h'(3) a l le by simp
  have w: "wf h' ?b'" using a l le h'(2) len by (simp add: wf_def allocated_def)
  have "valid h' ?b' = take (nat (length' b) + length d) (cells h' (region (data b)))"
    using valid_wf [OF w] l by (simp add: nat_add_distrib)
  also have "\<dots> = take (nat (length' b)) (cells h (region (data b))) @ d"
    using h'(3) a l le by (simp add: min_absorb2)
  also have "\<dots> = valid h b @ d" using valid_wf [OF assms] by simp
  finally have "valid h' ?b' = valid h b @ d" .
  with h' w show ?thesis by auto
next
  case True
  define cap where "cap = growCap (max (blen (data b)) 32) (length' b + int (length d))"
  let ?b' = "\<lparr>data = \<lparr>region = length h, blen = cap\<rparr>, length' = length' b + int (length d)\<rparr>"
  from bufPush_grow [OF assms True] obtain h' where
    h': "bufPush h b d = Inr (h', ?b')" "length h' = Suc (length h)"
        "cells h' (length h) =
               take (nat (length' b)) (cells h (region (data b))) @ d
                 @ replicate (cap - (nat (length' b) + length d)) NUL"
        "\<forall>a. a \<noteq> length h \<longrightarrow> cells h' a = cells h a"
    unfolding cap_def by blast
  from assms have a: "region (data b) < length h" "blen (data b) \<le> length (cells h (region (data b)))"
    and l: "0 \<le> length' b" "length' b \<le> int (blen (data b))" by (simp_all add: wf_def allocated_def)
  have capge: "length' b + int (length d) \<le> int cap"
    using growCap_ge [of "max (blen (data b)) 32" "length' b + int (length d)"] by (simp add: cap_def)
  have tl: "length (take (nat (length' b)) (cells h (region (data b)))) = nat (length' b)"
    using a l by simp
  have len: "length (cells h' (length h)) = cap"
    using h'(3) tl capge l by simp
  have w: "wf h' ?b'" using h'(2) len capge l by (simp add: wf_def allocated_def)
  have "valid h' ?b' = take (nat (length' b) + length d) (cells h' (length h))"
    using valid_wf [OF w] l by (simp add: nat_add_distrib)
  also have "\<dots> = take (nat (length' b)) (cells h (region (data b))) @ d"
    using h'(3) tl by simp
  also have "\<dots> = valid h b @ d" using valid_wf [OF assms] by simp
  finally have "valid h' ?b' = valid h b @ d" .
  with h' w show ?thesis by auto
qed

lemma bufPush_capacity:
  assumes "wf h b" "bufPush h b d = Inr (h', b')"
  shows "capacity b' = capacity b \<or> (\<exists>k. capacity b' = max (capacity b) 32 * 2 ^ k)"
    and "capacity b \<le> capacity b'"
proof -
  show "capacity b' = capacity b \<or> (\<exists>k. capacity b' = max (capacity b) 32 * 2 ^ k)"
  proof (cases "int (blen (data b)) < length' b + int (length d)")
    case False
    then have "length' b + int (length d) \<le> int (blen (data b))" by simp
    from bufPush_nogrow [OF assms(1) this] assms(2) show ?thesis by (auto simp: capacity_def)
  next
    case True
    from bufPush_grow [OF assms(1) True] assms(2)
    have "capacity b' = growCap (max (capacity b) 32) (length' b + int (length d))"
      by (auto simp: capacity_def)
    with growCap_form [of "max (capacity b) 32" "length' b + int (length d)"] show ?thesis by auto
  qed
  show "capacity b \<le> capacity b'"
  proof (cases "int (blen (data b)) < length' b + int (length d)")
    case False
    then have "length' b + int (length d) \<le> int (blen (data b))" by simp
    from bufPush_nogrow [OF assms(1) this] assms(2) show ?thesis by (auto simp: capacity_def)
  next
    case True
    from bufPush_grow [OF assms(1) True] assms(2)
    have "capacity b' = growCap (max (capacity b) 32) (length' b + int (length d))"
      by (auto simp: capacity_def)
    with growCap_mono [of "max (capacity b) 32" "length' b + int (length d)"] show ?thesis by auto
  qed
qed

lemma copyWithin_front:
  assumes "0 \<le> n" "n \<le> L" "L \<le> int (blen v)"
  shows "copyWithin h v 0 n L =
     (if n < L then
        h[region v := take (nat (L - n)) (drop (nat n) (cells h (region v)))
                      @ drop (nat (L - n)) (cells h (region v))]
      else h)"
proof -
  have ri: "rel_index (blen v) 0 = 0" "rel_index (blen v) n = nat n"
      "rel_index (blen v) L = nat L"
    using assms by (auto simp: rel_index_def)
  have cnt: "min (int (nat L) - int (nat n)) (int (blen v) - int (0::nat)) = L - n"
    using assms by simp
  show ?thesis
    unfolding copyWithin_def Let_def ri cnt by simp
qed

lemma bufPop_ok:
  assumes "wf h b" "0 \<le> n" "n \<le> length' b"
  shows "\<exists>h'. bufPop h b n = (h', b\<lparr>length' := length' b - n\<rparr>)
           \<and> wf h' (b\<lparr>length' := length' b - n\<rparr>)
           \<and> valid h' (b\<lparr>length' := length' b - n\<rparr>) = drop (nat n) (valid h b)
           \<and> length h' = length h
           \<and> (\<forall>a. a \<noteq> region (data b) \<longrightarrow> cells h' a = cells h a)"
proof -
  let ?old = "cells h (region (data b))" and ?b' = "b\<lparr>length' := length' b - n\<rparr>"
  let ?c = "nat (length' b - n)"
  from assms have a: "region (data b) < length h" "blen (data b) \<le> length ?old"
    and l: "0 \<le> length' b" "length' b \<le> int (blen (data b))" by (simp_all add: wf_def allocated_def)
  note cw = copyWithin_front [OF assms(2,3) l(2), of h]
  show ?thesis
  proof (cases "n < length' b")
    case False
    then have eq: "n = length' b" using assms(3) by simp
    have "bufPop h b n = (h, ?b')"
      using False cw by (simp add: bufPop_def)
    moreover have w: "wf h ?b'" using assms(1) eq by (simp add: wf_def)
    moreover have "valid h ?b' = drop (nat n) (valid h b)"
      using valid_wf [OF w] valid_wf [OF assms(1)] eq by simp
    ultimately show ?thesis by simp
  next
    case True
    let ?new = "take ?c (drop (nat n) ?old) @ drop ?c ?old"
    let ?h' = "h[region (data b) := ?new]"
    have "bufPop h b n = (?h', ?b')"
      using True cw by (simp add: bufPop_def)
    moreover have cn: "cells ?h' (region (data b)) = ?new" using a by (simp add: cells_update_same)
    moreover have ln: "length ?new = length ?old" using a l assms(2,3) by auto
    moreover have w: "wf ?h' ?b'" using a l assms(2,3) cn ln by (simp add: wf_def allocated_def)
    moreover have "valid ?h' ?b' = drop (nat n) (valid h b)"
    proof -
      have "valid ?h' ?b' = take ?c ?new" using valid_wf [OF w] cn by simp
      also have "\<dots> = take ?c (drop (nat n) ?old)" using a l assms(2,3) by simp
      also have "\<dots> = drop (nat n) (take (nat (length' b)) ?old)"
        using assms(2,3) by (simp add: drop_take nat_diff_distrib)
      finally show ?thesis using valid_wf [OF assms(1)] by simp
    qed
    ultimately show ?thesis by (simp add: cells_update_other)
  qed
qed

lemma take_firstMsg:
  "c \<in> set xs \<Longrightarrow> take (Suc (length (takeWhile (\<lambda>x. x \<noteq> c) xs))) xs = takeWhile (\<lambda>x. x \<noteq> c) xs @ [c]"
  by (induction xs) auto

lemma length_takeWhile_less:
  "c \<in> set xs \<Longrightarrow> length (takeWhile (\<lambda>x. x \<noteq> c) xs) < length xs"
  by (induction xs) auto

lemma wf_append: "wf h b \<Longrightarrow> wf (h @ [x]) b"
  by (simp add: wf_def allocated_def cells_append_old)

lemma valid_append: "wf h b \<Longrightarrow> valid (h @ [x]) b = valid h b"
  by (simp add: valid_def bytes_def subarray0_def wf_def allocated_def cells_append_old)

lemma cutMessage_none:
  "LF \<notin> set (valid h b) \<Longrightarrow> cutMessage h b = (h, b, None)"
  by (simp add: cutMessage_def valid_def indexOf_neg)

lemma cutMessage_some:
  assumes "wf h b" "LF \<in> set (valid h b)"
  shows "\<exists>h' b' msg. cutMessage h b = (h', b', Some msg) \<and> wf h' b'
           \<and> bytes h' msg = firstMsg (valid h b)
           \<and> valid h' b' = drop (length (firstMsg (valid h b))) (valid h b)
           \<and> data b' = data b
           \<and> msg = \<lparr>region = length h, blen = length (firstMsg (valid h b))\<rparr>
           \<and> length h' = Suc (length h)
           \<and> (\<forall>a. a \<noteq> region (data b) \<and> a \<noteq> length h \<longrightarrow> cells h' a = cells h a)"
proof -
  let ?v = "valid h b" and ?r = "region (data b)"
  let ?j = "length (takeWhile (\<lambda>x. x \<noteq> LF) ?v)"
  let ?m = "firstMsg ?v"
  let ?h1 = "h @ [?m]"
  let ?msg = "\<lparr>region = length h, blen = Suc ?j\<rparr>"
  from assms(1) have a: "?r < length h" "blen (data b) \<le> length (cells h ?r)"
    and l: "0 \<le> length' b" "length' b \<le> int (blen (data b))" by (simp_all add: wf_def allocated_def)
  have v: "?v = take (nat (length' b)) (cells h ?r)" by (rule valid_wf [OF assms(1)])
  have lv: "length ?v = nat (length' b)" using v a l by simp
  have idx: "indexOf (bytes h (subarray0 (data b) (length' b))) LF = int ?j"
    using indexOf_found [OF assms(2)] by (simp add: valid_def)
  have j: "?j < length ?v" by (rule length_takeWhile_less [OF assms(2)])
  then have jl: "int ?j + 1 \<le> length' b" using lv by linarith
  have sub: "subarray0 (data b) (int ?j + 1) = (data b)\<lparr>blen := Suc ?j\<rparr>"
    using jl l by (simp add: subarray0_def rel_index_def min_def nat_add_distrib)
  have "bytes h ((data b)\<lparr>blen := Suc ?j\<rparr>) = take (Suc ?j) ?v"
    using j lv by (simp add: bytes_def v min_def)
  also have "\<dots> = ?m" using take_firstMsg [OF assms(2)] by (simp add: firstMsg_def)
  finally have bm: "bytes h ((data b)\<lparr>blen := Suc ?j\<rparr>) = ?m" .
  have bf: "buffer_from h (subarray0 (data b) (int ?j + 1)) = (?h1, ?msg)"
    by (simp add: buffer_from_def sub bm)
  have w1: "wf ?h1 b" by (rule wf_append [OF assms(1)])
  have j0: "0 \<le> int ?j + 1" by simp
  let ?b' = "b\<lparr>length' := length' b - (int ?j + 1)\<rparr>"
  from bufPop_ok [OF w1 j0 jl] obtain h2 where
    h2: "bufPop ?h1 b (int ?j + 1) = (h2, ?b')" "wf h2 ?b'"
        "valid h2 ?b' = drop (nat (int ?j + 1)) (valid ?h1 b)"
        "length h2 = length ?h1"
        "\<forall>a. a \<noteq> ?r \<longrightarrow> cells h2 a = cells ?h1 a"
    by blast
  have cm: "cutMessage h b = (h2, ?b', Some ?msg)"
    using idx bf h2(1) by (simp add: cutMessage_def Let_def)
  have lm: "length ?m = Suc ?j" by (simp add: firstMsg_def)
  have "cells h2 (length h) = ?m" using h2(5) a(1) by (simp add: cells_append_new)
  then have bmsg: "bytes h2 ?msg = ?m" by (simp add: bytes_def lm)
  have vv: "valid h2 ?b' = drop (length ?m) ?v"
    using h2(3) valid_append [OF assms(1)] lm by (simp add: nat_add_distrib)
  have fr: "\<forall>a. a \<noteq> ?r \<and> a \<noteq> length h \<longrightarrow> cells h2 a = cells h a"
    using h2(5) by (auto simp: cells_def nth_append)
  show ?thesis using cm h2(2) bmsg vv lm h2(4) fr by simp
qed


text \<open>Unfolding the primitives, to run the model on concrete buffers.\<close>

lemmas buf_eval = bufPush_def alloc_def buf_copy_def bytes_def cells_def
  bufPop_def copyWithin_def rel_index_def subarray0_def cutMessage_def buffer_from_def
  growCap.simps Let_def valid_def wf_def allocated_def

section \<open>Framing: draining a stream of chunks\<close>

lemma run_push_all:
  "wf h b \<Longrightarrow> \<exists>h' b'. run_ops (h, b) (map Push chunks) = Inr (h', b') \<and> wf h' b'
      \<and> valid h' b' = valid h b @ concat chunks"
proof (induction chunks arbitrary: h b)
  case Nil
  then show ?case by simp
next
  case (Cons d ds)
  from bufPush_ok [OF Cons.prems, of d] obtain h1 b1 where
    s: "bufPush h b d = Inr (h1, b1)" "wf h1 b1" "valid h1 b1 = valid h b @ d" by blast
  from Cons.IH [OF s(2)] obtain h' b' where
    "run_ops (h1, b1) (map Push ds) = Inr (h', b')" "wf h' b'"
    "valid h' b' = valid h1 b1 @ concat ds" by blast
  with s show ?case by simp
qed

lemma firstMsg_take: "LF \<in> set s \<Longrightarrow> firstMsg s @ drop (length (firstMsg s)) s = s"
proof -
  assume a: "LF \<in> set s"
  have "firstMsg s = take (length (firstMsg s)) s"
    using take_firstMsg [OF a] by (simp add: firstMsg_def)
  then show ?thesis by (metis append_take_drop_id)
qed

lemma count_drop_firstMsg:
  "LF \<in> set s \<Longrightarrow> count_list s LF = Suc (count_list (drop (length (firstMsg s)) s) LF)"
  by (induction s) (auto simp: firstMsg_def)

lemma count_zero: "count_list s c = 0 \<longleftrightarrow> c \<notin> set s"
  by (induction s) auto

lemma firstMsg_shape: "firstMsg s \<noteq> [] \<and> last (firstMsg s) = LF \<and> LF \<notin> set (butlast (firstMsg s))"
  by (auto simp: firstMsg_def dest: set_takeWhileD)

lemma cutN_drain:
  "wf h b \<Longrightarrow> count_list (valid h b) LF = k \<Longrightarrow>
   \<exists>h' b' ms. cutN (Suc k) h b = (h', b', map Some ms @ [None]) \<and> length ms = k
     \<and> concat ms @ valid h' b' = valid h b
     \<and> (\<forall>m \<in> set ms. m \<noteq> [] \<and> last m = LF \<and> LF \<notin> set (butlast m))
     \<and> LF \<notin> set (valid h' b') \<and> wf h' b'"
proof (induction k arbitrary: h b)
  case 0
  then have n: "LF \<notin> set (valid h b)" by (simp add: count_zero)
  have "cutN (Suc 0) h b = (h, b, map Some [] @ [None])"
    using cutMessage_none [OF n] by simp
  with n 0 show ?case by (metis concat.simps(1) append_Nil list.size(3) empty_iff list.set(1))
next
  case (Suc k)
  then have i: "LF \<in> set (valid h b)" using count_zero [of "valid h b" LF] by auto
  let ?m = "firstMsg (valid h b)"
  from cutMessage_some [OF Suc.prems(1) i] obtain h1 b1 msg where
    c: "cutMessage h b = (h1, b1, Some msg)" "wf h1 b1" "bytes h1 msg = ?m"
       "valid h1 b1 = drop (length ?m) (valid h b)" by blast
  have "count_list (valid h1 b1) LF = k"
    using count_drop_firstMsg [OF i] Suc.prems(2) c(4) by simp
  from Suc.IH [OF c(2) this] obtain h' b' ms where
    r: "cutN (Suc k) h1 b1 = (h', b', map Some ms @ [None])" "length ms = k"
       "concat ms @ valid h' b' = valid h1 b1"
       "\<forall>m \<in> set ms. m \<noteq> [] \<and> last m = LF \<and> LF \<notin> set (butlast m)"
       "LF \<notin> set (valid h' b')" "wf h' b'" by blast
  have "cutN (Suc (Suc k)) h b = (h', b', map Some (?m # ms) @ [None])"
    using c(1,3) r(1) by simp
  moreover have "length (?m # ms) = Suc k" using r(2) by simp
  moreover have "concat (?m # ms) @ valid h' b' = valid h b"
    using r(3) c(4) firstMsg_take [OF i] by simp
  moreover have "\<forall>m \<in> set (?m # ms). m \<noteq> [] \<and> last m = LF \<and> LF \<notin> set (butlast m)"
    using r(4) firstMsg_shape [of "valid h b"] by simp
  ultimately show ?case using r(5,6) by blast
qed

text \<open>
  C1. Chunks are appended with \<open>bufPush\<close> to an empty buffer, and their concatenation
  holds \<open>k\<close> delimiters. Then \<open>k + 1\<close> successive \<open>cutMessage\<close> calls return \<open>k\<close> messages
  and then null. Each message ends with its delimiter and holds no other one, the messages
  followed by the valid bytes left in the buffer are the stream in its order, and what is
  left holds no delimiter.
\<close>

theorem cutMessage_drains_stream:
  assumes "wf h0 b0" and "length' b0 = 0"
  shows "\<exists>h b h' b' ms.
           run_ops (h0, b0) (map Push chunks) = Inr (h, b)
         \<and> cutN (Suc (count_list (concat chunks) LF)) h b = (h', b', map Some ms @ [None])
         \<and> length ms = count_list (concat chunks) LF
         \<and> concat ms @ valid h' b' = concat chunks
         \<and> (\<forall>m \<in> set ms. m \<noteq> [] \<and> last m = LF \<and> LF \<notin> set (butlast m))
         \<and> LF \<notin> set (valid h' b')"
proof -
  have e: "valid h0 b0 = []" using valid_wf [OF assms(1)] assms(2) by simp
  from run_push_all [OF assms(1), of chunks] obtain h b where
    p: "run_ops (h0, b0) (map Push chunks) = Inr (h, b)" "wf h b"
       "valid h b = concat chunks" using e by auto
  from cutN_drain [OF p(2), of "count_list (concat chunks) LF"] p(3) obtain h' b' ms where
    "cutN (Suc (count_list (concat chunks) LF)) h b = (h', b', map Some ms @ [None])"
    "length ms = count_list (concat chunks) LF"
    "concat ms @ valid h' b' = concat chunks"
    "\<forall>m \<in> set ms. m \<noteq> [] \<and> last m = LF \<and> LF \<notin> set (butlast m)"
    "LF \<notin> set (valid h' b')" by auto
  with p(1) show ?thesis by blast
qed

theorem cutMessage_drains_stream_witness:
  "wf [[]] \<lparr>data = \<lparr>region = 0, blen = 0\<rparr>, length' = 0\<rparr>
   \<and> length' \<lparr>data = \<lparr>region = 0, blen = 0\<rparr>, length' = 0\<rparr> = 0
   \<and> run_ops ([[]], \<lparr>data = \<lparr>region = 0, blen = 0\<rparr>, length' = 0\<rparr>)
         (map Push [''ab'' @ [LF] @ ''c'', ''d'' @ [LF, LF] @ ''xy''])
       = Inr ([[], ''ab'' @ [LF] @ ''cd'' @ [LF, LF] @ ''xy'' @ replicate 23 NUL],
              \<lparr>data = \<lparr>region = 1, blen = 32\<rparr>, length' = 9\<rparr>)
   \<and> count_list (concat [''ab'' @ [LF] @ ''c'', ''d'' @ [LF, LF] @ ''xy'']) LF = 3
   \<and> cutN 4 [[], ''ab'' @ [LF] @ ''cd'' @ [LF, LF] @ ''xy'' @ replicate 23 NUL]
          \<lparr>data = \<lparr>region = 1, blen = 32\<rparr>, length' = 9\<rparr>
       = ([[], ''xyy'' @ [LF] @ ''xy'' @ [LF] @ ''xy'' @ replicate 23 NUL,
           ''ab'' @ [LF], ''cd'' @ [LF], [LF]],
          \<lparr>data = \<lparr>region = 1, blen = 32\<rparr>, length' = 2\<rparr>,
          [Some (''ab'' @ [LF]), Some (''cd'' @ [LF]), Some [LF], None])
   \<and> valid [[], ''xyy'' @ [LF] @ ''xy'' @ [LF] @ ''xy'' @ replicate 23 NUL,
             ''ab'' @ [LF], ''cd'' @ [LF], [LF]]
          \<lparr>data = \<lparr>region = 1, blen = 32\<rparr>, length' = 2\<rparr> = ''xy''
   \<and> (\<exists>h b h' b' ms.
           run_ops ([[]], \<lparr>data = \<lparr>region = 0, blen = 0\<rparr>, length' = 0\<rparr>)
             (map Push [''ab'' @ [LF] @ ''c'', ''d'' @ [LF, LF] @ ''xy'']) = Inr (h, b)
         \<and> cutN (Suc (count_list (concat [''ab'' @ [LF] @ ''c'', ''d'' @ [LF, LF] @ ''xy'']) LF)) h b
             = (h', b', map Some ms @ [None])
         \<and> length ms = count_list (concat [''ab'' @ [LF] @ ''c'', ''d'' @ [LF, LF] @ ''xy'']) LF
         \<and> concat ms @ valid h' b' = concat [''ab'' @ [LF] @ ''c'', ''d'' @ [LF, LF] @ ''xy'']
         \<and> (\<forall>m \<in> set ms. m \<noteq> [] \<and> last m = LF \<and> LF \<notin> set (butlast m))
         \<and> LF \<notin> set (valid h' b'))"
proof -
  let ?b0 = "\<lparr>data = \<lparr>region = 0, blen = 0\<rparr>, length' = 0\<rparr>"
  let ?h1 = "[[], ''ab'' @ [LF] @ ''cd'' @ [LF, LF] @ ''xy'' @ replicate 23 NUL]"
  let ?b1 = "\<lparr>data = \<lparr>region = 1, blen = 32\<rparr>, length' = 9\<rparr>"
  let ?h2 = "[[], ''xyy'' @ [LF] @ ''xy'' @ [LF] @ ''xy'' @ replicate 23 NUL,
           ''ab'' @ [LF], ''cd'' @ [LF], [LF]]"
  let ?b2 = "\<lparr>data = \<lparr>region = 1, blen = 32\<rparr>, length' = 2\<rparr>"
  have w: "wf [[]] ?b0"
    by (simp add: wf_def allocated_def cells_def)
  have l: "length' ?b0 = 0" by simp
  have r: "run_ops ([[]], ?b0) (map Push [''ab'' @ [LF] @ ''c'', ''d'' @ [LF, LF] @ ''xy''])
             = Inr (?h1, ?b1)"
    by (simp add: buf_eval)
  have k: "count_list (concat [''ab'' @ [LF] @ ''c'', ''d'' @ [LF, LF] @ ''xy'']) LF = 3"
    by simp
  have c: "cutN 4 ?h1 ?b1
             = (?h2, ?b2, [Some (''ab'' @ [LF]), Some (''cd'' @ [LF]), Some [LF], None])"
    by (simp add: buf_eval numeral_eq_Suc)
  have v: "valid ?h2 ?b2 = ''xy''"
    by (simp add: valid_def bytes_def subarray0_def rel_index_def cells_def)
  note t = cutMessage_drains_stream [OF w l, of "[''ab'' @ [LF] @ ''c'', ''d'' @ [LF, LF] @ ''xy'']"]
  show ?thesis by (intro conjI w l r k c v t)
qed


section \<open>Capacity\<close>

lemma apply_op_ok:
  assumes "wf h b" "case x of Pop n \<Rightarrow> 0 \<le> n \<and> n \<le> length' b | Push d \<Rightarrow> True"
  shows "\<exists>h' b'. apply_op (h, b) x = Inr (h', b') \<and> wf h' b'
           \<and> capacity b \<le> capacity b'
           \<and> (capacity b' = capacity b \<or> (\<exists>k. capacity b' = max (capacity b) 32 * 2 ^ k))
           \<and> (\<forall>n. x = Pop n \<longrightarrow> capacity b' = capacity b)"
proof (cases x)
  case (Push d)
  from bufPush_ok [OF assms(1), of d] obtain h' b' where
    p: "bufPush h b d = Inr (h', b')" "wf h' b'" by blast
  from bufPush_capacity [OF assms(1) p(1)] p Push show ?thesis by auto
next
  case (Pop n)
  with assms(2) have n: "0 \<le> n" "n \<le> length' b" by simp_all
  from bufPop_ok [OF assms(1) n] Pop show ?thesis by (auto simp: capacity_def)
qed

lemma cap_form_step:
  assumes "c = c0 \<or> (\<exists>k. c = max c0 32 * 2 ^ k)"
    and "c' = c \<or> (\<exists>k. c' = max c 32 * 2 ^ k)"
  shows "c' = c0 \<or> (\<exists>k. c' = max (c0::nat) 32 * 2 ^ k)"
proof -
  from assms(2) show ?thesis
  proof
    assume "c' = c" with assms(1) show ?thesis by simp
  next
    assume "\<exists>k. c' = max c 32 * 2 ^ k"
    then obtain j where j: "c' = max c 32 * 2 ^ j" ..
    from assms(1) show ?thesis
    proof
      assume "c = c0" with j show ?thesis by blast
    next
      assume "\<exists>k. c = max c0 32 * 2 ^ k"
      then obtain k where k: "c = max c0 32 * 2 ^ k" ..
      have "32 \<le> max c0 32 * 2 ^ k"
        by (metis max.cobounded2 mult.right_neutral mult_le_mono one_le_numeral one_le_power)
      then have "max c 32 = max c0 32 * 2 ^ k" using k by simp
      then have "c' = max c0 32 * 2 ^ (k + j)" using j by (simp add: power_add)
      then show ?thesis by blast
    qed
  qed
qed

lemma run_ops_inv:
  "wf h b \<Longrightarrow> pre_ok (h, b) ops \<Longrightarrow>
   capacity b = c0 \<or> (\<exists>k. capacity b = max c0 32 * 2 ^ k) \<Longrightarrow>
   \<exists>h' b'. run_ops (h, b) ops = Inr (h', b') \<and> wf h' b'
     \<and> (capacity b' = c0 \<or> (\<exists>k. capacity b' = max c0 32 * 2 ^ k))"
proof (induction ops arbitrary: h b)
  case Nil
  then show ?case by simp
next
  case (Cons x xs)
  from Cons.prems(2) have px: "case x of Pop n \<Rightarrow> 0 \<le> n \<and> n \<le> length' b | Push d \<Rightarrow> True"
    by (cases x) simp_all
  from apply_op_ok [OF Cons.prems(1) px] obtain h1 b1 where
    s: "apply_op (h, b) x = Inr (h1, b1)" "wf h1 b1"
       "capacity b1 = capacity b \<or> (\<exists>k. capacity b1 = max (capacity b) 32 * 2 ^ k)" by blast
  from Cons.prems(2) s(1) have p1: "pre_ok (h1, b1) xs" by simp
  from cap_form_step [OF Cons.prems(3) s(3)]
  have f1: "capacity b1 = c0 \<or> (\<exists>k. capacity b1 = max c0 32 * 2 ^ k)" .
  from Cons.IH [OF s(2) p1 f1] s(1) show ?case by simp
qed

lemma pre_ok_append:
  "pre_ok s (ops @ [x]) \<Longrightarrow> pre_ok s ops"
  by (induction ops arbitrary: s) (auto split: sum.splits)

lemma pre_ok_last:
  "pre_ok s (ops @ [x]) \<Longrightarrow> run_ops s ops = Inr s' \<Longrightarrow> pre_ok s' [x]"
  by (induction ops arbitrary: s) (auto split: sum.splits)

text \<open>
  C3, as amended. From an empty buffer of any initial capacity \<open>c0\<close>, after any sequence
  of \<open>bufPush\<close> and of \<open>bufPop\<close> called with \<open>0 \<le> len \<le> buf.length\<close>, every operation
  returns, the capacity is \<open>c0\<close> or \<open>max c0 32\<close> times a power of two (so 32 times a power
  of two whenever \<open>c0 \<le> 32\<close>, as for \<open>Buffer.alloc(0)\<close>), it is at least the length, it
  never decreases across an operation, and \<open>bufPop\<close> leaves it as it is.
\<close>

theorem capacity_invariant:
  assumes "wf h0 b0" and "length' b0 = 0" and "pre_ok (h0, b0) (ops @ [x])"
  shows "\<exists>h b h' b'.
           run_ops (h0, b0) ops = Inr (h, b) \<and> apply_op (h, b) x = Inr (h', b')
         \<and> (capacity b = capacity b0 \<or> (\<exists>k. capacity b = max (capacity b0) 32 * 2 ^ k))
         \<and> (capacity b' = capacity b0 \<or> (\<exists>k. capacity b' = max (capacity b0) 32 * 2 ^ k))
         \<and> 0 \<le> length' b \<and> length' b \<le> int (capacity b)
         \<and> 0 \<le> length' b' \<and> length' b' \<le> int (capacity b')
         \<and> capacity b \<le> capacity b'
         \<and> (\<forall>n. x = Pop n \<longrightarrow> capacity b' = capacity b)"
proof -
  have f0: "capacity b0 = capacity b0 \<or> (\<exists>k. capacity b0 = max (capacity b0) 32 * 2 ^ k)"
    by simp
  from run_ops_inv [OF assms(1) pre_ok_append [OF assms(3)] f0] obtain h b where
    r: "run_ops (h0, b0) ops = Inr (h, b)" "wf h b"
       "capacity b = capacity b0 \<or> (\<exists>k. capacity b = max (capacity b0) 32 * 2 ^ k)" by blast
  from pre_ok_last [OF assms(3) r(1)]
  have px: "case x of Pop n \<Rightarrow> 0 \<le> n \<and> n \<le> length' b | Push d \<Rightarrow> True"
    by (cases x) simp_all
  from apply_op_ok [OF r(2) px] obtain h' b' where
    s: "apply_op (h, b) x = Inr (h', b')" "wf h' b'" "capacity b \<le> capacity b'"
       "capacity b' = capacity b \<or> (\<exists>k. capacity b' = max (capacity b) 32 * 2 ^ k)"
       "\<forall>n. x = Pop n \<longrightarrow> capacity b' = capacity b" by blast
  from cap_form_step [OF r(3) s(4)]
  have f': "capacity b' = capacity b0 \<or> (\<exists>k. capacity b' = max (capacity b0) 32 * 2 ^ k)" .
  from r(2) s(2) have "0 \<le> length' b" "length' b \<le> int (capacity b)"
    "0 \<le> length' b'" "length' b' \<le> int (capacity b')"
    by (simp_all add: wf_def capacity_def)
  with r(1,3) s(1,3,5) f' show ?thesis by blast
qed

theorem capacity_invariant_witness:
  "wf [[]] \<lparr>data = \<lparr>region = 0, blen = 0\<rparr>, length' = 0\<rparr>
   \<and> length' \<lparr>data = \<lparr>region = 0, blen = 0\<rparr>, length' = 0\<rparr> = 0
   \<and> pre_ok ([[]], \<lparr>data = \<lparr>region = 0, blen = 0\<rparr>, length' = 0\<rparr>) ([Push ''hello'', Push (replicate 40 CHR ''x'')] @ [Pop 2])
   \<and> (\<exists>h b h' b'.
           run_ops ([[]], \<lparr>data = \<lparr>region = 0, blen = 0\<rparr>, length' = 0\<rparr>) [Push ''hello'', Push (replicate 40 CHR ''x'')] = Inr (h, b)
         \<and> apply_op (h, b) (Pop 2) = Inr (h', b')
         \<and> (capacity b = capacity \<lparr>data = \<lparr>region = 0, blen = 0\<rparr>, length' = 0\<rparr>
              \<or> (\<exists>k. capacity b = max (capacity \<lparr>data = \<lparr>region = 0, blen = 0\<rparr>, length' = 0\<rparr>) 32 * 2 ^ k))
         \<and> (capacity b' = capacity \<lparr>data = \<lparr>region = 0, blen = 0\<rparr>, length' = 0\<rparr>
              \<or> (\<exists>k. capacity b' = max (capacity \<lparr>data = \<lparr>region = 0, blen = 0\<rparr>, length' = 0\<rparr>) 32 * 2 ^ k))
         \<and> 0 \<le> length' b \<and> length' b \<le> int (capacity b)
         \<and> 0 \<le> length' b' \<and> length' b' \<le> int (capacity b')
         \<and> capacity b \<le> capacity b'
         \<and> (\<forall>n. Pop 2 = Pop n \<longrightarrow> capacity b' = capacity b))"
proof -
  have w: "wf [[]] \<lparr>data = \<lparr>region = 0, blen = 0\<rparr>, length' = 0\<rparr>"
    by (simp add: wf_def allocated_def cells_def)
  have l: "length' \<lparr>data = \<lparr>region = 0, blen = 0\<rparr>, length' = 0\<rparr> = 0" by simp
  have p: "pre_ok ([[]], \<lparr>data = \<lparr>region = 0, blen = 0\<rparr>, length' = 0\<rparr>)
             ([Push ''hello'', Push (replicate 40 CHR ''x'')] @ [Pop 2])"
    by (simp add: buf_eval)
  from capacity_invariant [OF w l p] show ?thesis using w l p by blast
qed

text \<open>
  The capacity need not be the initial one or 32 times a power of two: growth starts at
  \<open>Math.max(buf.data.length, 32)\<close>, so an empty buffer of capacity 48 grows to 96.
\<close>

lemma not_pow: "\<not> (\<exists>k. (96::nat) = 32 * 2 ^ k)"
proof
  assume "\<exists>k. (96::nat) = 32 * 2 ^ k"
  then obtain k where "(96::nat) = 32 * 2 ^ k" ..
  then have k: "(2::nat) ^ k = 3" by simp
  show False
  proof (cases k)
    case 0
    with k show False by simp
  next
    case (Suc j)
    with k have "even (3::nat)" by (metis even_power dvd_refl zero_less_Suc)
    then show False by simp
  qed
qed

lemma growCap_48_49: "growCap 48 49 = 96"
  by (simp add: growCap.simps)

theorem capacity_form_counterexample:
  "wf [replicate 48 NUL] \<lparr>data = \<lparr>region = 0, blen = 48\<rparr>, length' = 0\<rparr>
   \<and> pre_ok ([replicate 48 NUL], \<lparr>data = \<lparr>region = 0, blen = 48\<rparr>, length' = 0\<rparr>)
        [Push (replicate 49 CHR ''x'')]
   \<and> (case run_ops ([replicate 48 NUL], \<lparr>data = \<lparr>region = 0, blen = 48\<rparr>, length' = 0\<rparr>)
           [Push (replicate 49 CHR ''x'')] of
        Inl e \<Rightarrow> False
      | Inr (h, b) \<Rightarrow>
          capacity b = 96
        \<and> capacity b \<noteq> capacity \<lparr>data = \<lparr>region = 0, blen = 48\<rparr>, length' = 0\<rparr>
        \<and> \<not> (\<exists>k. capacity b = 32 * 2 ^ k))"
proof -
  let ?b = "\<lparr>data = \<lparr>region = 0, blen = 48\<rparr>, length' = 0\<rparr>"
  have w: "wf [replicate 48 NUL] ?b"
    by (simp add: wf_def allocated_def cells_def)
  have "int (blen (data ?b)) < length' ?b + int (length (replicate 49 CHR ''x''))" by simp
  from bufPush_grow [OF w this] obtain h' where
    "bufPush [replicate 48 NUL] ?b (replicate 49 CHR ''x'')
       = Inr (h', \<lparr>data = \<lparr>region = 1, blen = 96\<rparr>, length' = 49\<rparr>)"
    by (auto simp: growCap.simps)
  then have r: "run_ops ([replicate 48 NUL], ?b) [Push (replicate 49 CHR ''x'')]
       = Inr (h', \<lparr>data = \<lparr>region = 1, blen = 96\<rparr>, length' = 49\<rparr>)" by simp
  have c: "capacity \<lparr>data = \<lparr>region = 1, blen = 96\<rparr>, length' = 49\<rparr> = 96"
    "capacity ?b = 48" by (simp_all add: capacity_def)
  have p: "pre_ok ([replicate 48 NUL], ?b) [Push (replicate 49 CHR ''x'')]"
    by (simp split: sum.splits)
  show ?thesis unfolding r using w p not_pow by (simp add: capacity_def)
qed

section \<open>Incomplete messages\<close>

lemma set_concat_free: "(\<forall>c \<in> set cs. x \<notin> set c) \<Longrightarrow> x \<notin> set (concat cs)"
  by auto

text \<open>
  C4. A buffer whose valid region holds no delimiter: \<open>cutMessage\<close> returns null and leaves
  the store and the buffer as they are; the same holds after any delimiter-free chunks
  \<open>cs\<close> were appended; and after chunks \<open>ds\<close> whose concatenation holds a delimiter were
  appended, however the bytes are split over the chunks, \<open>cutMessage\<close> returns the bytes
  buffered up to and including the first delimiter and keeps the rest.
\<close>

theorem cutMessage_waits_for_delimiter:
  assumes "wf h b" and "LF \<notin> set (valid h b)"
  shows "cutMessage h b = (h, b, None)
       \<and> ((\<forall>c \<in> set cs. LF \<notin> set c) \<longrightarrow>
            (\<exists>h' b'. run_ops (h, b) (map Push cs) = Inr (h', b')
               \<and> valid h' b' = valid h b @ concat cs
               \<and> cutMessage h' b' = (h', b', None)))
       \<and> (LF \<in> set (concat ds) \<longrightarrow>
            (\<exists>h' b' h'' b'' msg. run_ops (h, b) (map Push ds) = Inr (h', b')
               \<and> cutMessage h' b' = (h'', b'', Some msg)
               \<and> bytes h'' msg = firstMsg (valid h b @ concat ds)
               \<and> valid h'' b'' = drop (length (firstMsg (valid h b @ concat ds))) (valid h b @ concat ds)))"
proof (intro conjI impI)
  show "cutMessage h b = (h, b, None)" by (rule cutMessage_none [OF assms(2)])
next
  assume f: "\<forall>c \<in> set cs. LF \<notin> set c"
  from run_push_all [OF assms(1), of cs] obtain h' b' where
    r: "run_ops (h, b) (map Push cs) = Inr (h', b')" "valid h' b' = valid h b @ concat cs"
    by blast
  have "LF \<notin> set (valid h' b')" using r(2) assms(2) set_concat_free [OF f] by simp
  from cutMessage_none [OF this] r
  show "\<exists>h' b'. run_ops (h, b) (map Push cs) = Inr (h', b')
               \<and> valid h' b' = valid h b @ concat cs
               \<and> cutMessage h' b' = (h', b', None)" by blast
next
  assume d: "LF \<in> set (concat ds)"
  from run_push_all [OF assms(1), of ds] obtain h' b' where
    r: "run_ops (h, b) (map Push ds) = Inr (h', b')" "wf h' b'"
       "valid h' b' = valid h b @ concat ds"
    by blast
  have "LF \<in> set (valid h' b')" using r(3) d by simp
  from cutMessage_some [OF r(2) this] r(1,3)
  show "\<exists>h' b' h'' b'' msg. run_ops (h, b) (map Push ds) = Inr (h', b')
               \<and> cutMessage h' b' = (h'', b'', Some msg)
               \<and> bytes h'' msg = firstMsg (valid h b @ concat ds)
               \<and> valid h'' b'' = drop (length (firstMsg (valid h b @ concat ds))) (valid h b @ concat ds)"
    by (metis (no_types, lifting))
qed

theorem cutMessage_waits_for_delimiter_witness:
  "wf [''ab''] \<lparr>data = \<lparr>region = 0, blen = 2\<rparr>, length' = 2\<rparr>
   \<and> LF \<notin> set (valid [''ab''] \<lparr>data = \<lparr>region = 0, blen = 2\<rparr>, length' = 2\<rparr>)
   \<and> LF \<notin> set ''cd'' \<and> LF \<notin> set ''e''
   \<and> LF \<in> set (concat [''hel'', ''lo'', [LF], ''x''])
   \<and> cutMessage [''ab''] \<lparr>data = \<lparr>region = 0, blen = 2\<rparr>, length' = 2\<rparr>
        = ([''ab''], \<lparr>data = \<lparr>region = 0, blen = 2\<rparr>, length' = 2\<rparr>, None)
   \<and> (\<exists>h' b'. run_ops ([''ab''], \<lparr>data = \<lparr>region = 0, blen = 2\<rparr>, length' = 2\<rparr>)
                 (map Push [''cd'', ''e'']) = Inr (h', b')
         \<and> valid h' b' = valid [''ab''] \<lparr>data = \<lparr>region = 0, blen = 2\<rparr>, length' = 2\<rparr> @ concat [''cd'', ''e'']
         \<and> cutMessage h' b' = (h', b', None))
   \<and> (\<exists>h' b' h'' b'' msg.
           run_ops ([''ab''], \<lparr>data = \<lparr>region = 0, blen = 2\<rparr>, length' = 2\<rparr>)
             (map Push [''hel'', ''lo'', [LF], ''x'']) = Inr (h', b')
         \<and> cutMessage h' b' = (h'', b'', Some msg)
         \<and> bytes h'' msg = ''abhello'' @ [LF])"
proof -
  let ?h = "[''ab'']" and ?b = "\<lparr>data = \<lparr>region = 0, blen = 2\<rparr>, length' = 2\<rparr>"
  have w: "wf ?h ?b"
    by (simp add: wf_def allocated_def cells_def)
  have n: "LF \<notin> set (valid ?h ?b)"
    by (simp add: valid_def bytes_def subarray0_def rel_index_def cells_def)
  have f: "\<forall>c \<in> set [''cd'', ''e'']. LF \<notin> set c" by simp
  have f1: "LF \<notin> set ''cd''" and f2: "LF \<notin> set ''e''" by simp_all
  have d: "LF \<in> set (concat [''hel'', ''lo'', [LF], ''x''])" by simp
  have m: "firstMsg (valid ?h ?b @ concat [''hel'', ''lo'', [LF], ''x'']) = ''abhello'' @ [LF]"
    by (simp add: firstMsg_def valid_def bytes_def subarray0_def rel_index_def cells_def)
  note t = cutMessage_waits_for_delimiter [OF w n, of "[''cd'', ''e'']" "[''hel'', ''lo'', [LF], ''x'']"]
  from t have a: "cutMessage ?h ?b = (?h, ?b, None)" by (rule conjunct1)
  from t f have b: "\<exists>h' b'. run_ops (?h, ?b) (map Push [''cd'', ''e'']) = Inr (h', b')
         \<and> valid h' b' = valid ?h ?b @ concat [''cd'', ''e'']
         \<and> cutMessage h' b' = (h', b', None)" by blast
  from t d have "\<exists>h' b' h'' b'' msg.
           run_ops (?h, ?b) (map Push [''hel'', ''lo'', [LF], ''x'']) = Inr (h', b')
         \<and> cutMessage h' b' = (h'', b'', Some msg)
         \<and> bytes h'' msg = firstMsg (valid ?h ?b @ concat [''hel'', ''lo'', [LF], ''x''])"
    by blast
  then have c: "\<exists>h' b' h'' b'' msg.
           run_ops (?h, ?b) (map Push [''hel'', ''lo'', [LF], ''x'']) = Inr (h', b')
         \<and> cutMessage h' b' = (h'', b'', Some msg)
         \<and> bytes h'' msg = ''abhello'' @ [LF]"
    unfolding m .
  show ?thesis by (intro conjI w n f1 f2 d a b c)
qed

text \<open>
  C10. \<open>cutMessage\<close> looks at the indices below \<open>buf.length\<close> only: if these hold no
  delimiter it returns null and changes nothing, whatever the storage holds from
  \<open>buf.length\<close> on. In the witness the storage holds a stale delimiter at index 1, left by
  the \<open>bufPop\<close> of an earlier \<open>cutMessage\<close>.
\<close>

theorem cutMessage_ignores_stale_bytes:
  assumes "wf h b" and "LF \<notin> set (take (nat (length' b)) (cells h (region (data b))))"
  shows "cutMessage h b = (h, b, None)"
  using cutMessage_none [of h b] valid_wf [OF assms(1)] assms(2) by simp

theorem cutMessage_ignores_stale_bytes_witness:
  "run_ops ([[]], \<lparr>data = \<lparr>region = 0, blen = 0\<rparr>, length' = 0\<rparr>) [Push (''a'' @ [LF] @ ''b'')]
     = Inr ([[], ''a'' @ [LF] @ ''b'' @ replicate 29 NUL], \<lparr>data = \<lparr>region = 1, blen = 32\<rparr>, length' = 3\<rparr>)
   \<and> cutMessage [[], ''a'' @ [LF] @ ''b'' @ replicate 29 NUL] \<lparr>data = \<lparr>region = 1, blen = 32\<rparr>, length' = 3\<rparr>
     = ([[], ''b'' @ [LF] @ ''b'' @ replicate 29 NUL, ''a'' @ [LF]],
        \<lparr>data = \<lparr>region = 1, blen = 32\<rparr>, length' = 1\<rparr>, Some \<lparr>region = 2, blen = 2\<rparr>)
   \<and> wf [[], ''b'' @ [LF] @ ''b'' @ replicate 29 NUL, ''a'' @ [LF]] \<lparr>data = \<lparr>region = 1, blen = 32\<rparr>, length' = 1\<rparr>
   \<and> LF \<notin> set (take (nat 1) (cells [[], ''b'' @ [LF] @ ''b'' @ replicate 29 NUL, ''a'' @ [LF]] 1))
   \<and> LF \<in> set (drop (nat 1) (cells [[], ''b'' @ [LF] @ ''b'' @ replicate 29 NUL, ''a'' @ [LF]] 1))
   \<and> cutMessage [[], ''b'' @ [LF] @ ''b'' @ replicate 29 NUL, ''a'' @ [LF]] \<lparr>data = \<lparr>region = 1, blen = 32\<rparr>, length' = 1\<rparr>
     = ([[], ''b'' @ [LF] @ ''b'' @ replicate 29 NUL, ''a'' @ [LF]], \<lparr>data = \<lparr>region = 1, blen = 32\<rparr>, length' = 1\<rparr>, None)"
proof -
  let ?h = "[[], ''b'' @ [LF] @ ''b'' @ replicate 29 NUL, ''a'' @ [LF]]"
  let ?b = "\<lparr>data = \<lparr>region = 1, blen = 32\<rparr>, length' = 1\<rparr>"
  have r: "run_ops ([[]], \<lparr>data = \<lparr>region = 0, blen = 0\<rparr>, length' = 0\<rparr>) [Push (''a'' @ [LF] @ ''b'')]
     = Inr ([[], ''a'' @ [LF] @ ''b'' @ replicate 29 NUL], \<lparr>data = \<lparr>region = 1, blen = 32\<rparr>, length' = 3\<rparr>)"
    by (simp add: buf_eval)
  have c: "cutMessage [[], ''a'' @ [LF] @ ''b'' @ replicate 29 NUL] \<lparr>data = \<lparr>region = 1, blen = 32\<rparr>, length' = 3\<rparr>
     = (?h, ?b, Some \<lparr>region = 2, blen = 2\<rparr>)"
    by (simp add: buf_eval)
  have w: "wf ?h ?b" by (simp add: wf_def allocated_def cells_def)
  have n: "LF \<notin> set (take (nat (length' ?b)) (cells ?h (region (data ?b))))"
    by (simp add: cells_def)
  have s: "LF \<in> set (drop (nat 1) (cells ?h 1))" by (simp add: cells_def)
  from cutMessage_ignores_stale_bytes [OF w n] show ?thesis using r c w n s by simp
qed

section \<open>The two copies of bufPush\<close>

text \<open>
  C9. The two copies of \<open>bufPush\<close> differ: there are a well-formed buffer and a chunk that
  make the storage grow, after which the valid bytes are not the same. The second copy sets
  \<open>buf.length\<close> to the new capacity before it copies the chunk, so the chunk is copied to
  the end of the storage, where nothing fits.
\<close>

theorem bufPush_variants_differ:
  "\<exists>h b d. wf h b \<and> int (capacity b) < length' b + int (length d)
     \<and> (\<exists>h1 b1 h2 b2. bufPush h b d = Inr (h1, b1) \<and> bufPush_v2 h b d = Inr (h2, b2)
           \<and> valid h1 b1 \<noteq> valid h2 b2)"
proof -
  let ?h = "[[]] :: store" and ?b = "\<lparr>data = \<lparr>region = 0, blen = 0\<rparr>, length' = 0\<rparr>"
  let ?b' = "\<lparr>data = \<lparr>region = 1, blen = 32\<rparr>, length' = 1\<rparr>"
  have w: "wf ?h ?b" by (simp add: wf_def allocated_def cells_def)
  have g: "int (capacity ?b) < length' ?b + int (length ''a'')" by (simp add: capacity_def)
  have p1: "bufPush ?h ?b ''a'' = Inr ([[], ''a'' @ replicate 31 NUL], ?b')"
    by (simp add: buf_eval)
  have p2: "bufPush_v2 ?h ?b ''a'' = Inr ([[], replicate 32 NUL], ?b')"
    by (simp add: bufPush_v2_def buf_eval)
  have v: "valid [[], ''a'' @ replicate 31 NUL] ?b' = ''a''" "valid [[], replicate 32 NUL] ?b' = [NUL]"
    by (simp_all add: valid_def bytes_def subarray0_def rel_index_def cells_def)
  have "valid [[], ''a'' @ replicate 31 NUL] ?b' \<noteq> valid [[], replicate 32 NUL] ?b'"
    unfolding v by simp
  with w g p1 p2 show ?thesis by blast
qed

section \<open>Messages do not alias the buffer\<close>

lemma buf_copy_frame:
  "buf_copy h src tgt ts = Inr h' \<Longrightarrow>
     length h' = length h \<and> (\<forall>a. a \<noteq> region tgt \<longrightarrow> cells h' a = cells h a)"
  by (auto simp: buf_copy_def Let_def cells_def split: if_splits)

lemma copyWithin_frame:
  "length (copyWithin h v t s e) = length h
   \<and> (\<forall>a. a \<noteq> region v \<longrightarrow> cells (copyWithin h v t s e) a = cells h a)"
  by (auto simp: copyWithin_def Let_def cells_def)

lemma bufPop_frame:
  "bufPop h b n = (h', b') \<Longrightarrow>
     length h' = length h \<and> data b' = data b
     \<and> (\<forall>a. a \<noteq> region (data b) \<longrightarrow> cells h' a = cells h a)"
  using copyWithin_frame [of h "data b" 0 n "length' b"] by (auto simp: bufPop_def)

lemma bufPush_frame:
  assumes "bufPush h b d = Inr (h', b')"
  shows "length h \<le> length h'
       \<and> (region (data b') = region (data b) \<or> region (data b') = length h)
       \<and> (\<forall>a. a < length h \<and> a \<noteq> region (data b) \<longrightarrow> cells h' a = cells h a)"
proof (cases "int (blen (data b)) < length' b + int (length d)")
  case False
  with assms obtain h4 where
    c: "buf_copy h d (data b) (length' b) = Inr h4" "h' = h4"
       "b' = b\<lparr>length' := length' b + int (length d)\<rparr>"
    by (auto simp: bufPush_def Let_def split: sum.splits)
  from buf_copy_frame [OF c(1)] c(2,3) show ?thesis by simp
next
  case True
  let ?cap = "growCap (max (blen (data b)) 32) (length' b + int (length d))"
  let ?h1 = "h @ [replicate ?cap NUL]"
  let ?g = "\<lparr>region = length h, blen = ?cap\<rparr>"
  from True assms obtain h2 h4 where
    c: "buf_copy ?h1 (bytes ?h1 (data b)) ?g 0 = Inr h2"
       "buf_copy h2 d ?g (length' b) = Inr h4" "h' = h4"
       "b' = \<lparr>data = ?g, length' = length' b + int (length d)\<rparr>"
    by (auto simp: bufPush_def Let_def alloc_def split: sum.splits)
  from buf_copy_frame [OF c(1)] buf_copy_frame [OF c(2)]
  have "length h4 = Suc (length h)" "\<forall>a. a \<noteq> length h \<longrightarrow> cells h4 a = cells ?h1 a" by simp_all
  then have "\<forall>a. a < length h \<longrightarrow> cells h4 a = cells h a"
    by (auto simp: cells_append_old)
  with c(3,4) \<open>length h4 = Suc (length h)\<close> show ?thesis by simp
qed

lemma apply_op_frame:
  assumes "apply_op (h, b) x = Inr (h', b')" "a < length h" "region (data b) \<noteq> a"
  shows "cells h' a = cells h a \<and> a < length h' \<and> region (data b') \<noteq> a"
proof (cases x)
  case (Push d)
  with assms(1) have "bufPush h b d = Inr (h', b')" by simp
  from bufPush_frame [OF this] assms(2,3) show ?thesis by auto
next
  case (Pop n)
  with assms(1) have "bufPop h b n = (h', b')" by simp
  from bufPop_frame [OF this] assms(2,3) show ?thesis by auto
qed

lemma run_ops_frame:
  "run_ops (h, b) ops = Inr (h', b') \<Longrightarrow> a < length h \<Longrightarrow> region (data b) \<noteq> a \<Longrightarrow>
     cells h' a = cells h a"
proof (induction ops arbitrary: h b)
  case Nil
  then show ?case by simp
next
  case (Cons x xs)
  from Cons.prems(1) obtain h1 b1 where
    s: "apply_op (h, b) x = Inr (h1, b1)" "run_ops (h1, b1) xs = Inr (h', b')"
    by (auto split: sum.splits)
  from apply_op_frame [OF s(1) Cons.prems(2,3)]
  have f: "cells h1 a = cells h a" "a < length h1" "region (data b1) \<noteq> a" by simp_all
  from Cons.IH [OF s(2) f(2,3)] f(1) show ?case by simp
qed

lemma cutMessage_fresh:
  assumes "cutMessage h b = (h1, b1, Some msg)"
  shows "region msg = length h \<and> length h1 = Suc (length h) \<and> data b1 = data b"
proof -
  let ?i = "indexOf (bytes h (subarray0 (data b) (length' b))) LF"
  let ?h = "h @ [bytes h (subarray0 (data b) (?i + 1))]"
  from assms have m: "msg = \<lparr>region = length h, blen = blen (subarray0 (data b) (?i + 1))\<rparr>"
    and p: "bufPop ?h b (?i + 1) = (h1, b1)"
    by (auto simp: cutMessage_def Let_def buffer_from_def split: if_splits prod.splits)
  from bufPop_frame [OF p] m show ?thesis by simp
qed

text \<open>
  C7. A message returned by \<open>cutMessage\<close> lives in a region of its own: no later sequence
  of \<open>bufPush\<close> and \<open>bufPop\<close> on the buffer, with any arguments, changes its bytes.
\<close>

theorem message_is_independent_copy:
  assumes "region (data b) < length h"
    and "cutMessage h b = (h1, b1, Some msg)"
    and "run_ops (h1, b1) ops = Inr (h2, b2)"
  shows "bytes h2 msg = bytes h1 msg \<and> region msg \<noteq> region (data b1)"
proof -
  from cutMessage_fresh [OF assms(2)]
  have f: "region msg = length h" "length h1 = Suc (length h)" "data b1 = data b" by simp_all
  have a: "region msg < length h1" "region (data b1) \<noteq> region msg" using f assms(1) by simp_all
  from run_ops_frame [OF assms(3) a] a(2) show ?thesis by (auto simp: bytes_def)
qed

theorem message_is_independent_copy_witness:
  "region (data \<lparr>data = \<lparr>region = 0, blen = 4\<rparr>, length' = 4\<rparr>) < length [''a'' @ [LF] @ ''bc'']
   \<and> cutMessage [''a'' @ [LF] @ ''bc''] \<lparr>data = \<lparr>region = 0, blen = 4\<rparr>, length' = 4\<rparr>
       = ([''bcbc'', ''a'' @ [LF]], \<lparr>data = \<lparr>region = 0, blen = 4\<rparr>, length' = 2\<rparr>, Some \<lparr>region = 1, blen = 2\<rparr>)
   \<and> run_ops ([''bcbc'', ''a'' @ [LF]], \<lparr>data = \<lparr>region = 0, blen = 4\<rparr>, length' = 2\<rparr>) [Pop 1, Push ''xyz'']
       = Inr ([''cxyz'', ''a'' @ [LF]], \<lparr>data = \<lparr>region = 0, blen = 4\<rparr>, length' = 4\<rparr>)
   \<and> bytes [''cxyz'', ''a'' @ [LF]] \<lparr>region = 1, blen = 2\<rparr> = bytes [''bcbc'', ''a'' @ [LF]] \<lparr>region = 1, blen = 2\<rparr>
   \<and> bytes [''cxyz'', ''a'' @ [LF]] \<lparr>region = 1, blen = 2\<rparr> = ''a'' @ [LF]"
proof -
  have a: "region (data \<lparr>data = \<lparr>region = 0, blen = 4\<rparr>, length' = 4\<rparr>) < length [''a'' @ [LF] @ ''bc'']"
    by simp
  have c: "cutMessage [''a'' @ [LF] @ ''bc''] \<lparr>data = \<lparr>region = 0, blen = 4\<rparr>, length' = 4\<rparr>
       = ([''bcbc'', ''a'' @ [LF]], \<lparr>data = \<lparr>region = 0, blen = 4\<rparr>, length' = 2\<rparr>, Some \<lparr>region = 1, blen = 2\<rparr>)"
    by (simp add: buf_eval)
  have r: "run_ops ([''bcbc'', ''a'' @ [LF]], \<lparr>data = \<lparr>region = 0, blen = 4\<rparr>, length' = 2\<rparr>) [Pop 1, Push ''xyz'']
       = Inr ([''cxyz'', ''a'' @ [LF]], \<lparr>data = \<lparr>region = 0, blen = 4\<rparr>, length' = 4\<rparr>)"
    by (simp add: buf_eval)
  have v: "bytes [''cxyz'', ''a'' @ [LF]] \<lparr>region = 1, blen = 2\<rparr> = ''a'' @ [LF]"
    by (simp add: bytes_def cells_def)
  from message_is_independent_copy [OF a c r] show ?thesis using a c r v by simp
qed


section \<open>The connection adapter\<close>

text \<open>Unfolding the adapter, to run it on concrete connections.\<close>

lemmas conn_eval = soInit_def soRead_def soWrite_def onData_def onEnd_def onError_def Let_def

lemma conn_inv_init: "conn_inv (soInit sock)"
  by (simp add: conn_inv_def soInit_def)

lemma handle_inv:
  "conn_inv c \<Longrightarrow> handle c ev = Inr (c', r) \<Longrightarrow> conn_inv c'"
  by (cases ev; cases "reader c")
     (auto simp: conn_inv_def onData_def onEnd_def onError_def Let_def)

lemma conn_step_inv:
  "conn_inv c \<Longrightarrow> conn_step c x = Inr c' \<Longrightarrow> conn_inv c'"
proof (cases x)
  case (Ev ev)
  assume "conn_inv c" "conn_step c x = Inr c'"
  with Ev show ?thesis by (auto split: sum.splits dest: handle_inv)
next
  case CallRead
  assume "conn_inv c" "conn_step c x = Inr c'"
  with CallRead show ?thesis
    by (auto simp: conn_inv_def soRead_def split: option.splits if_splits)
next
  case (CallWrite d)
  assume "conn_inv c" "conn_step c x = Inr c'"
  with CallWrite show ?thesis
    by (auto simp: conn_inv_def soWrite_def split: option.splits if_splits)
qed

lemma conn_run_inv:
  "conn_inv c \<Longrightarrow> conn_run c xs = Inr c' \<Longrightarrow> conn_inv c'"
proof (induction xs arbitrary: c)
  case Nil
  then show ?case by simp
next
  case (Cons x xs)
  from Cons.prems(2) obtain c1 where
    s: "conn_step c x = Inr c1" "conn_run c1 xs = Inr c'" by (auto split: sum.splits)
  from Cons.IH [OF conn_step_inv [OF Cons.prems(1) s(1)] s(2)] show ?case .
qed

lemma handle_latch:
  assumes "handle c ev = Inr (c', r)"
  shows "(ended c \<longrightarrow> ended c') \<and> (err c \<noteq> None \<longrightarrow> err c' \<noteq> None)
       \<and> ((\<forall>e. ev \<noteq> OnError e) \<longrightarrow> err c' = err c)"
  using assms
  by (cases ev; cases "reader c")
     (auto simp: onData_def onEnd_def onError_def Let_def)

lemma conn_step_latch:
  assumes "conn_step c x = Inr c'"
  shows "(ended c \<longrightarrow> ended c') \<and> (err c \<noteq> None \<longrightarrow> err c' \<noteq> None)
       \<and> ((\<forall>e. x \<noteq> Ev (OnError e)) \<longrightarrow> err c' = err c)"
proof (cases x)
  case (Ev ev)
  with assms obtain r where "handle c ev = Inr (c', r)" by (auto split: sum.splits)
  from handle_latch [OF this] Ev show ?thesis by simp
next
  case CallRead
  with assms show ?thesis by (auto simp: soRead_def split: option.splits if_splits)
next
  case (CallWrite d)
  with assms show ?thesis by (auto simp: soWrite_def split: option.splits if_splits)
qed

lemma conn_run_latch:
  "conn_run c xs = Inr c' \<Longrightarrow>
     (ended c \<longrightarrow> ended c') \<and> (err c \<noteq> None \<longrightarrow> err c' \<noteq> None)
     \<and> ((\<forall>e. Ev (OnError e) \<notin> set xs) \<longrightarrow> err c' = err c)"
proof (induction xs arbitrary: c)
  case Nil
  then show ?case by simp
next
  case (Cons x xs)
  from Cons.prems obtain c1 where
    s: "conn_step c x = Inr c1" "conn_run c1 xs = Inr c'" by (auto split: sum.splits)
  from conn_step_latch [OF s(1)] Cons.IH [OF s(2)] show ?case by auto
qed

text \<open>
  C5. \<open>soRead\<close> on a connection whose \<open>reader\<close> is set throws the error "Concurrent read
  operations not allowed" and leaves the connection as it is, so no second reader is
  registered. On a connection made by \<open>soInit\<close>, once \<open>ended\<close> is set, after any further
  events and calls, and while no error is latched, \<open>soRead\<close> resolves at once with the
  empty buffer and registers no reader.
\<close>

theorem soRead_contract:
  "(reader c \<noteq> None \<longrightarrow>
      soRead c = (c, ReadThrew (Error ''Concurrent read operations not allowed'')))
   \<and> (conn_run (soInit sock) xs = Inr c1 \<and> ended c1 \<and> conn_run c1 ys = Inr c2 \<and> err c2 = None \<longrightarrow>
      soRead c2 = (c2, ReadResolved []) \<and> reader c2 = None)"
proof (intro conjI impI)
  assume "reader c \<noteq> None"
  then show "soRead c = (c, ReadThrew (Error ''Concurrent read operations not allowed''))"
    by (simp add: soRead_def)
next
  assume a: "conn_run (soInit sock) xs = Inr c1 \<and> ended c1 \<and> conn_run c1 ys = Inr c2 \<and> err c2 = None"
  then have i1: "conn_inv c1" using conn_run_inv [OF conn_inv_init] by blast
  with a have i2: "conn_inv c2" using conn_run_inv by blast
  from a conn_run_latch [of c1 ys c2] have e: "ended c2" by blast
  with i2 have r: "reader c2 = None" by (auto simp: conn_inv_def)
  with e a show "soRead c2 = (c2, ReadResolved [])" by (simp add: soRead_def)
  from r show "reader c2 = None" .
qed

theorem soRead_contract_witness:
  "reader (fst (soRead (soInit \<lparr>flowing = False, written = [], destroyed = False\<rparr>))) \<noteq> None
   \<and> soRead (fst (soRead (soInit \<lparr>flowing = False, written = [], destroyed = False\<rparr>)))
       = (fst (soRead (soInit \<lparr>flowing = False, written = [], destroyed = False\<rparr>)),
          ReadThrew (Error ''Concurrent read operations not allowed''))
   \<and> conn_run (soInit \<lparr>flowing = False, written = [], destroyed = False\<rparr>) [CallRead, Ev OnEnd]
       = Inr \<lparr>socket = \<lparr>flowing = True, written = [], destroyed = False\<rparr>, err = None, ended = True, reader = None\<rparr>
   \<and> ended \<lparr>socket = \<lparr>flowing = True, written = [], destroyed = False\<rparr>, err = None, ended = True, reader = None\<rparr>
   \<and> conn_run \<lparr>socket = \<lparr>flowing = True, written = [], destroyed = False\<rparr>, err = None, ended = True, reader = None\<rparr>
        [CallRead, CallWrite ''x'', CallRead]
       = Inr \<lparr>socket = \<lparr>flowing = True, written = [''x''], destroyed = False\<rparr>, err = None, ended = True, reader = None\<rparr>
   \<and> soRead \<lparr>socket = \<lparr>flowing = True, written = [''x''], destroyed = False\<rparr>, err = None, ended = True, reader = None\<rparr>
       = (\<lparr>socket = \<lparr>flowing = True, written = [''x''], destroyed = False\<rparr>, err = None, ended = True, reader = None\<rparr>,
          ReadResolved [])"
proof -
  let ?s = "\<lparr>flowing = False, written = [], destroyed = False\<rparr>"
  let ?c1 = "\<lparr>socket = \<lparr>flowing = True, written = [], destroyed = False\<rparr>, err = None, ended = True, reader = None\<rparr>"
  let ?c2 = "\<lparr>socket = \<lparr>flowing = True, written = [''x''], destroyed = False\<rparr>, err = None, ended = True, reader = None\<rparr>"
  have p: "reader (fst (soRead (soInit ?s))) \<noteq> None" by (simp add: conn_eval)
  have r1: "conn_run (soInit ?s) [CallRead, Ev OnEnd] = Inr ?c1" by (simp add: conn_eval)
  have r2: "conn_run ?c1 [CallRead, CallWrite ''x'', CallRead] = Inr ?c2" by (simp add: conn_eval)
  have h: "conn_run (soInit ?s) [CallRead, Ev OnEnd] = Inr ?c1 \<and> ended ?c1
           \<and> conn_run ?c1 [CallRead, CallWrite ''x'', CallRead] = Inr ?c2 \<and> err ?c2 = None"
    using r1 r2 by simp
  from soRead_contract [of "fst (soRead (soInit ?s))" ?s "[CallRead, Ev OnEnd]" ?c1
      "[CallRead, CallWrite ''x'', CallRead]" ?c2] p h r1 r2
  show ?thesis by simp
qed

text \<open>
  C8. \<open>soWrite\<close> with zero-length data is rejected with the error "Data length must be
  greater than 0", and with a latched error and non-empty data it is rejected with that
  error; in both cases the connection, and so what was handed to the socket, is unchanged.
\<close>

theorem soWrite_contract:
  "soWrite c [] = (c, WriteRejected (Error ''Data length must be greater than 0''))
   \<and> (err c = Some e \<and> d \<noteq> [] \<longrightarrow> soWrite c d = (c, WriteRejected e))"
  by (simp add: soWrite_def)

theorem soWrite_contract_witness:
  "err \<lparr>socket = \<lparr>flowing = False, written = [], destroyed = False\<rparr>,
        err = Some (Error ''ECONNRESET''), ended = False, reader = None\<rparr> = Some (Error ''ECONNRESET'')
   \<and> ''Hello'' \<noteq> []
   \<and> soWrite \<lparr>socket = \<lparr>flowing = False, written = [], destroyed = False\<rparr>,
        err = Some (Error ''ECONNRESET''), ended = False, reader = None\<rparr> ''Hello''
      = (\<lparr>socket = \<lparr>flowing = False, written = [], destroyed = False\<rparr>,
        err = Some (Error ''ECONNRESET''), ended = False, reader = None\<rparr>, WriteRejected (Error ''ECONNRESET''))"
  using soWrite_contract [of "\<lparr>socket = \<lparr>flowing = False, written = [], destroyed = False\<rparr>,
        err = Some (Error ''ECONNRESET''), ended = False, reader = None\<rparr>" "Error ''ECONNRESET''" "''Hello''"]
  by simp

text \<open>
  C6, as amended. On a connection made by \<open>soInit\<close>, after any events and calls: once
  \<open>ended\<close> is set it stays set; once \<open>err\<close> is set it stays set, to the same error as long
  as no further error event arrives, and then \<open>soRead\<close>, and \<open>soWrite\<close> with non-empty
  data, are rejected with the error latched at the call. An end event settles a pending
  read with the empty buffer, an error event settles it with the error.
\<close>

theorem latched_state:
  assumes "conn_run (soInit sock) xs = Inr c" and "conn_run c ys = Inr c'"
  shows "(ended c \<longrightarrow> ended c')
       \<and> (err c = Some e \<longrightarrow>
            (\<exists>e'. err c' = Some e'
               \<and> soRead c' = (c', ReadRejected e')
               \<and> (\<forall>d. d \<noteq> [] \<longrightarrow> soWrite c' d = (c', WriteRejected e'))
               \<and> ((\<forall>x. Ev (OnError x) \<notin> set ys) \<longrightarrow> e' = e)))
       \<and> (reader p \<noteq> None \<longrightarrow>
            onEnd p = (p\<lparr>ended := True, reader := None\<rparr>, Some (Resolved []))
          \<and> onError p e = (p\<lparr>err := Some e, reader := None\<rparr>, Some (Rejected e)))"
proof (intro conjI impI)
  note l = conn_run_latch [OF assms(2)]
  assume "ended c" with l show "ended c'" by simp
next
  note l = conn_run_latch [OF assms(2)]
  assume e: "err c = Some e"
  with l obtain e' where e': "err c' = Some e'" by auto
  have "conn_inv c'"
    using conn_run_inv [OF conn_run_inv [OF conn_inv_init assms(1)] assms(2)] .
  with e' have r: "reader c' = None" by (auto simp: conn_inv_def)
  have "soRead c' = (c', ReadRejected e')" using r e' by (simp add: soRead_def)
  moreover have "\<forall>d. d \<noteq> [] \<longrightarrow> soWrite c' d = (c', WriteRejected e')"
    using e' by (simp add: soWrite_def)
  moreover have "(\<forall>x. Ev (OnError x) \<notin> set ys) \<longrightarrow> e' = e" using l e e' by auto
  ultimately show "\<exists>e'. err c' = Some e'
               \<and> soRead c' = (c', ReadRejected e')
               \<and> (\<forall>d. d \<noteq> [] \<longrightarrow> soWrite c' d = (c', WriteRejected e'))
               \<and> ((\<forall>x. Ev (OnError x) \<notin> set ys) \<longrightarrow> e' = e)" using e' by blast
next
  assume "reader p \<noteq> None"
  then show "onEnd p = (p\<lparr>ended := True, reader := None\<rparr>, Some (Resolved []))"
    by (auto simp: onEnd_def Let_def)
next
  assume "reader p \<noteq> None"
  then show "onError p e = (p\<lparr>err := Some e, reader := None\<rparr>, Some (Rejected e))"
    by (auto simp: onError_def Let_def)
qed

theorem latched_state_witness:
  "conn_run (soInit \<lparr>flowing = False, written = [], destroyed = False\<rparr>)
     [CallRead, Ev OnEnd, Ev (OnError (Error ''ECONNRESET''))]
     = Inr \<lparr>socket = \<lparr>flowing = True, written = [], destroyed = False\<rparr>,
            err = Some (Error ''ECONNRESET''), ended = True, reader = None\<rparr>
   \<and> conn_run \<lparr>socket = \<lparr>flowing = True, written = [], destroyed = False\<rparr>,
            err = Some (Error ''ECONNRESET''), ended = True, reader = None\<rparr>
        [CallRead, CallWrite ''x'', Ev OnEnd]
     = Inr \<lparr>socket = \<lparr>flowing = True, written = [], destroyed = False\<rparr>,
            err = Some (Error ''ECONNRESET''), ended = True, reader = None\<rparr>
   \<and> (\<forall>x. Ev (OnError x) \<notin> set [CallRead, CallWrite ''x'', Ev OnEnd])
   \<and> reader (fst (soRead (soInit \<lparr>flowing = False, written = [], destroyed = False\<rparr>))) \<noteq> None
   \<and> soRead \<lparr>socket = \<lparr>flowing = True, written = [], destroyed = False\<rparr>,
            err = Some (Error ''ECONNRESET''), ended = True, reader = None\<rparr>
       = (\<lparr>socket = \<lparr>flowing = True, written = [], destroyed = False\<rparr>,
            err = Some (Error ''ECONNRESET''), ended = True, reader = None\<rparr>,
          ReadRejected (Error ''ECONNRESET''))
   \<and> soWrite \<lparr>socket = \<lparr>flowing = True, written = [], destroyed = False\<rparr>,
            err = Some (Error ''ECONNRESET''), ended = True, reader = None\<rparr> ''Hello''
       = (\<lparr>socket = \<lparr>flowing = True, written = [], destroyed = False\<rparr>,
            err = Some (Error ''ECONNRESET''), ended = True, reader = None\<rparr>,
          WriteRejected (Error ''ECONNRESET''))
   \<and> onEnd (fst (soRead (soInit \<lparr>flowing = False, written = [], destroyed = False\<rparr>)))
       = (\<lparr>socket = \<lparr>flowing = True, written = [], destroyed = False\<rparr>,
            err = None, ended = True, reader = None\<rparr>, Some (Resolved []))
   \<and> onError (fst (soRead (soInit \<lparr>flowing = False, written = [], destroyed = False\<rparr>))) (Error ''ECONNRESET'')
       = (\<lparr>socket = \<lparr>flowing = True, written = [], destroyed = False\<rparr>,
            err = Some (Error ''ECONNRESET''), ended = False, reader = None\<rparr>, Some (Rejected (Error ''ECONNRESET'')))"
proof -
  let ?s = "\<lparr>flowing = False, written = [], destroyed = False\<rparr>"
  let ?c = "\<lparr>socket = \<lparr>flowing = True, written = [], destroyed = False\<rparr>,
            err = Some (Error ''ECONNRESET''), ended = True, reader = None\<rparr>"
  let ?p = "fst (soRead (soInit ?s))"
  have r1: "conn_run (soInit ?s) [CallRead, Ev OnEnd, Ev (OnError (Error ''ECONNRESET''))] = Inr ?c"
    by (simp add: conn_eval)
  have r2: "conn_run ?c [CallRead, CallWrite ''x'', Ev OnEnd] = Inr ?c"
    by (simp add: conn_eval)
  have n: "\<forall>x. Ev (OnError x) \<notin> set [CallRead, CallWrite ''x'', Ev OnEnd]" by simp
  have p: "reader ?p \<noteq> None" by (simp add: conn_eval)
  have pv: "?p = \<lparr>socket = \<lparr>flowing = True, written = [], destroyed = False\<rparr>,
            err = None, ended = False, reader = Some Callbacks\<rparr>" by (simp add: conn_eval)
  from latched_state [OF r1 r2, of "Error ''ECONNRESET''" ?p] n p
  have "soRead ?c = (?c, ReadRejected (Error ''ECONNRESET''))"
    "soWrite ?c ''Hello'' = (?c, WriteRejected (Error ''ECONNRESET''))"
    "onEnd ?p = (?p\<lparr>ended := True, reader := None\<rparr>, Some (Resolved []))"
    "onError ?p (Error ''ECONNRESET'')
       = (?p\<lparr>err := Some (Error ''ECONNRESET''), reader := None\<rparr>, Some (Rejected (Error ''ECONNRESET'')))"
    by auto
  then show ?thesis using r1 r2 n p by (simp add: pv)
qed

text \<open>
  With an error latched, \<open>soWrite\<close> with zero-length data is rejected with the error of
  its length check, not with the latched one; and a second error event replaces the
  latched error.
\<close>

theorem latched_error_counterexample:
  "conn_run (soInit \<lparr>flowing = False, written = [], destroyed = False\<rparr>)
     [Ev (OnError (Error ''ECONNRESET''))]
     = Inr \<lparr>socket = \<lparr>flowing = False, written = [], destroyed = False\<rparr>,
            err = Some (Error ''ECONNRESET''), ended = False, reader = None\<rparr>
   \<and> soWrite \<lparr>socket = \<lparr>flowing = False, written = [], destroyed = False\<rparr>,
            err = Some (Error ''ECONNRESET''), ended = False, reader = None\<rparr> []
       = (\<lparr>socket = \<lparr>flowing = False, written = [], destroyed = False\<rparr>,
            err = Some (Error ''ECONNRESET''), ended = False, reader = None\<rparr>,
          WriteRejected (Error ''Data length must be greater than 0''))
   \<and> Error ''Data length must be greater than 0'' \<noteq> Error ''ECONNRESET''
   \<and> conn_run \<lparr>socket = \<lparr>flowing = False, written = [], destroyed = False\<rparr>,
            err = Some (Error ''ECONNRESET''), ended = False, reader = None\<rparr>
        [Ev (OnError (Error ''EPIPE''))]
     = Inr \<lparr>socket = \<lparr>flowing = False, written = [], destroyed = False\<rparr>,
            err = Some (Error ''EPIPE''), ended = False, reader = None\<rparr>
   \<and> soRead \<lparr>socket = \<lparr>flowing = False, written = [], destroyed = False\<rparr>,
            err = Some (Error ''EPIPE''), ended = False, reader = None\<rparr>
       = (\<lparr>socket = \<lparr>flowing = False, written = [], destroyed = False\<rparr>,
            err = Some (Error ''EPIPE''), ended = False, reader = None\<rparr>,
          ReadRejected (Error ''EPIPE''))
   \<and> Error ''EPIPE'' \<noteq> Error ''ECONNRESET''"
  by (simp add: conn_eval)

section \<open>serveClient\<close>

lemma loopHead_init:
  "loopHead (soInit sock) =
     (\<lparr>socket = sock\<lparr>flowing := True\<rparr>, err = None, ended = False, reader = Some Callbacks\<rparr>, AwaitRead)"
  by (simp add: loopHead_def soInit_def soRead_def)

lemma echo_round:
  assumes "awaiting c" "d \<noteq> []"
  shows "deliver (deliver (c, AwaitRead) (Sock (OnData d))) (WriteCb None)
           = (c\<lparr>socket := (socket c)\<lparr>written := written (socket c) @ [d]\<rparr>\<rparr>, AwaitRead)"
  using assms
  by (simp add: awaiting_def onData_def afterRead_def soWrite_def writeCallback_def
        loopHead_def soRead_def)

lemma echo_rounds:
  "awaiting c \<Longrightarrow> \<forall>d \<in> set chunks. d \<noteq> [] \<Longrightarrow>
     foldl deliver (c, AwaitRead) (echoScript chunks)
       = (c\<lparr>socket := (socket c)\<lparr>written := written (socket c) @ chunks\<rparr>\<rparr>, AwaitRead)"
proof (induction chunks arbitrary: c)
  case Nil
  then show ?case by (simp add: echoScript_def)
next
  case (Cons d ds)
  let ?c1 = "c\<lparr>socket := (socket c)\<lparr>written := written (socket c) @ [d]\<rparr>\<rparr>"
  from Cons.prems have d: "d \<noteq> []" and ds: "\<forall>d \<in> set ds. d \<noteq> []" by simp_all
  have a1: "awaiting ?c1" using Cons.prems(1) by (simp add: awaiting_def)
  have "foldl deliver (c, AwaitRead) (echoScript (d # ds))
          = foldl deliver (deliver (deliver (c, AwaitRead) (Sock (OnData d))) (WriteCb None)) (echoScript ds)"
    by (simp add: echoScript_def)
  also have "\<dots> = foldl deliver (?c1, AwaitRead) (echoScript ds)"
    using echo_round [OF Cons.prems(1) d] by simp
  also have "\<dots> = (?c1\<lparr>socket := (socket ?c1)\<lparr>written := written (socket ?c1) @ ds\<rparr>\<rparr>, AwaitRead)"
    by (rule Cons.IH [OF a1 ds])
  finally show ?case by simp
qed

text \<open>
  \<open>serveClient\<close> does not frame messages: non-empty chunks delivered one per read, with
  every write accepted by the transport, are handed back to the socket as they are, and
  the loop waits for the next read. When the peer ends the stream, \<open>serveClient\<close> returns
  and \<open>newConn\<close> destroys the socket.
\<close>

lemma serveClient_echoes_chunks:
  assumes "\<forall>d \<in> set chunks. d \<noteq> []"
  shows "serveClient sock (echoScript chunks)
           = (\<lparr>socket = sock\<lparr>flowing := True, written := written sock @ chunks\<rparr>,
               err = None, ended = False, reader = Some Callbacks\<rparr>, AwaitRead)
       \<and> newConn sock (echoScript chunks)
           = (\<lparr>socket = sock\<lparr>flowing := True, written := written sock @ chunks\<rparr>,
               err = None, ended = False, reader = Some Callbacks\<rparr>, AwaitRead)
       \<and> newConn sock (echoScript chunks @ [Sock OnEnd])
           = (\<lparr>socket = sock\<lparr>flowing := True, written := written sock @ chunks, destroyed := True\<rparr>,
               err = None, ended = True, reader = None\<rparr>, Finished (Resolved ()))"
proof -
  let ?ini = "\<lparr>socket = sock\<lparr>flowing := True\<rparr>, err = None, ended = False, reader = Some Callbacks\<rparr>"
  let ?c = "\<lparr>socket = sock\<lparr>flowing := True, written := written sock @ chunks\<rparr>,
               err = None, ended = False, reader = Some Callbacks\<rparr>"
  have a: "awaiting ?ini" by (simp add: awaiting_def)
  have s: "serveClient sock (echoScript chunks) = (?c, AwaitRead)"
    using echo_rounds [of ?ini chunks, OF a assms] by (simp add: serveClient_def loopHead_init)
  have "serveClient sock (echoScript chunks @ [Sock OnEnd]) = deliver (?c, AwaitRead) (Sock OnEnd)"
    using s by (simp add: serveClient_def)
  also have "\<dots> = (\<lparr>socket = sock\<lparr>flowing := True, written := written sock @ chunks\<rparr>,
               err = None, ended = True, reader = None\<rparr>, Finished (Resolved ()))"
    by (simp add: onEnd_def afterRead_def)
  finally show ?thesis using s by (simp add: newConn_def)
qed

section \<open>The serving loop that frames messages\<close>

text \<open>\<open>soRead\<close> completes at once with a result only on an ended connection, and the
  result is empty: this is the read on which \<open>frameRead\<close> stops.\<close>

lemma soRead_resolved_empty:
  "soRead c = (c', ReadResolved d) \<Longrightarrow> d = [] \<and> ended c \<and> c' = c"
  by (auto simp: soRead_def split: if_splits option.splits)

text \<open>Unfolding the loop, to run it on concrete inputs.\<close>

lemmas frame_eval = frameServe_def frameClose_def frameRead_def frameData_def frameDrain_def
  frameProcess_def frameReply_def quitMsg_def writeCallback_def

lemma frame_message:
  assumes "wf h b" and "err c = None" and "LF \<in> set (valid h b)"
  shows "\<exists>h' b'.
           wf h' b'
         \<and> valid h' b' = drop (length (firstMsg (valid h b))) (valid h b)
         \<and> frameDrain c h b =
             ((c\<lparr>socket := (socket c)\<lparr>written :=
                   written (socket c) @ [frameReply (firstMsg (valid h b))]\<rparr>\<rparr>, h', b'),
              FAwaitWrite (firstMsg (valid h b) = quitMsg))"
proof -
  from cutMessage_some [OF assms(1,3)] obtain h' b' msg where
    c: "cutMessage h b = (h', b', Some msg)" "wf h' b'" "bytes h' msg = firstMsg (valid h b)"
       "valid h' b' = drop (length (firstMsg (valid h b))) (valid h b)" by blast
  have n: "frameReply (firstMsg (valid h b)) \<noteq> []"
    by (simp add: frameReply_def)
  have "frameDrain c h b =
             ((c\<lparr>socket := (socket c)\<lparr>written :=
                   written (socket c) @ [frameReply (firstMsg (valid h b))]\<rparr>\<rparr>, h', b'),
              FAwaitWrite (firstMsg (valid h b) = quitMsg))"
    using c(1,3) assms(2) n by (simp add: frameDrain_def frameProcess_def soWrite_def)
  with c(2,4) show ?thesis by blast
qed


lemma frame_ack:
  "frameDeliver ((c, h, b), FAwaitWrite q) (WriteCb None)
     = (if q then ((c, h, b), FFinished (Resolved ())) else frameDrain c h b)"
  by (simp add: writeCallback_def)

lemma takeWhile_until: "c \<notin> set xs \<Longrightarrow> takeWhile (\<lambda>x. x \<noteq> c) (xs @ c # r) = xs"
  by (induction xs) auto

lemma firstMsg_shaped:
  assumes "m \<noteq> []" "last m = LF" "LF \<notin> set (butlast m)"
  shows "firstMsg (m @ r) = m"
proof -
  from assms(1,2) have m: "m = butlast m @ [LF]" by (metis append_butlast_last_id)
  have "firstMsg (m @ r) = firstMsg (butlast m @ LF # r)" by (subst m) simp
  also have "\<dots> = butlast m @ [LF]"
    using takeWhile_until [OF assms(3), of r] by (simp add: firstMsg_def)
  finally show ?thesis using m by simp
qed

lemma frame_drain_all:
  "wf h b \<Longrightarrow> err c = None \<Longrightarrow> valid h b = concat ms @ r \<Longrightarrow>
   \<forall>m \<in> set ms. m \<noteq> [] \<and> last m = LF \<and> LF \<notin> set (butlast m) \<and> m \<noteq> quitMsg \<Longrightarrow>
   \<exists>h' b'. foldl frameDeliver (frameDrain c h b) (replicate (length ms) (WriteCb None))
              = frameDrain (c\<lparr>socket := (socket c)\<lparr>written :=
                    written (socket c) @ map (\<lambda>m. ''Echo: '' @ m) ms\<rparr>\<rparr>) h' b'
          \<and> wf h' b' \<and> valid h' b' = r"
proof (induction ms arbitrary: h b c)
  case Nil
  then show ?case by auto
next
  case (Cons m ms)
  let ?c1 = "c\<lparr>socket := (socket c)\<lparr>written := written (socket c) @ [''Echo: '' @ m]\<rparr>\<rparr>"
  from Cons.prems(4) have sh: "m \<noteq> []" "last m = LF" "LF \<notin> set (butlast m)" "m \<noteq> quitMsg"
    by simp_all
  have v: "valid h b = m @ (concat ms @ r)" using Cons.prems(3) by simp
  have fm: "firstMsg (valid h b) = m" unfolding v by (rule firstMsg_shaped [OF sh(1-3)])
  have "LF \<in> set m" using sh(1,2) by (metis last_in_set)
  then have l: "LF \<in> set (valid h b)" unfolding v by simp
  from frame_message [OF Cons.prems(1,2) l] obtain h1 b1 where
    f: "wf h1 b1" "valid h1 b1 = concat ms @ r"
       "frameDrain c h b = ((?c1, h1, b1), FAwaitWrite False)"
    using fm sh(4) v by (auto simp: frameReply_def)
  have e1: "err ?c1 = None" using Cons.prems(2) by simp
  from Cons.prems(4) have rest: "\<forall>m \<in> set ms. m \<noteq> [] \<and> last m = LF \<and> LF \<notin> set (butlast m) \<and> m \<noteq> quitMsg"
    by simp
  from Cons.IH [OF f(1) e1 f(2) rest] obtain h' b' where
    i: "foldl frameDeliver (frameDrain ?c1 h1 b1) (replicate (length ms) (WriteCb None))
              = frameDrain (?c1\<lparr>socket := (socket ?c1)\<lparr>written :=
                    written (socket ?c1) @ map (\<lambda>m. ''Echo: '' @ m) ms\<rparr>\<rparr>) h' b'"
       "wf h' b'" "valid h' b' = r" by blast
  have "foldl frameDeliver (frameDrain c h b) (replicate (length (m # ms)) (WriteCb None))
      = foldl frameDeliver (frameDrain ?c1 h1 b1) (replicate (length ms) (WriteCb None))"
    unfolding f(3) by (simp add: writeCallback_def)
  with i show ?case by auto
qed

text \<open>
  A chunk that holds complete messages, none of them the quit message, then the quit
  message, then anything: on a new connection, with every write accepted, the replies
  are "Echo: " and the message for each message, in order, then "Bye." and a newline, and
  the socket is destroyed. What follows the quit message is not answered.
\<close>

lemma frame_first_chunk:
  assumes "d \<noteq> []"
  shows "\<exists>h b. wf h b \<and> valid h b = d
     \<and> frameDeliver (frameRead (soInit sock) [[]] \<lparr>data = \<lparr>region = 0, blen = 0\<rparr>, length' = 0\<rparr>)
          (Sock (OnData d))
        = frameDrain \<lparr>socket = sock\<lparr>flowing := False\<rparr>, err = None, ended = False, reader = None\<rparr> h b"
proof -
  let ?b = "\<lparr>data = \<lparr>region = 0, blen = 0\<rparr>, length' = 0\<rparr>"
  have w: "wf [[]] ?b" by (simp add: wf_def allocated_def cells_def)
  have v: "valid [[]] ?b = []" using valid_wf [OF w] by simp
  from bufPush_ok [OF w, of d] obtain h b where
    p: "bufPush [[]] ?b d = Inr (h, b)" "wf h b" "valid h b = d" using v by auto
  have "frameDeliver (frameRead (soInit sock) [[]] ?b) (Sock (OnData d))
        = frameDrain \<lparr>socket = sock\<lparr>flowing := False\<rparr>, err = None, ended = False, reader = None\<rparr> h b"
    using assms p(1) by (simp add: frameRead_def soInit_def soRead_def onData_def frameData_def)
  with p(2,3) show ?thesis by blast
qed

lemma framing_loop_pipelined:
  assumes "\<forall>m \<in> set ms. m \<noteq> [] \<and> last m = LF \<and> LF \<notin> set (butlast m) \<and> m \<noteq> quitMsg"
  shows "\<exists>h b. frameServe sock
            (Sock (OnData (concat ms @ quitMsg @ rest)) # replicate (Suc (length ms)) (WriteCb None))
         = ((\<lparr>socket = sock\<lparr>flowing := False,
                 written := written sock @ map (\<lambda>m. ''Echo: '' @ m) ms @ [''Bye.'' @ [LF]],
                 destroyed := True\<rparr>,
              err = None, ended = False, reader = None\<rparr>, h, b), FFinished (Resolved ()))"
proof -
  let ?d = "concat ms @ quitMsg @ rest"
  let ?ca = "\<lparr>socket = sock\<lparr>flowing := False\<rparr>, err = None, ended = False, reader = None\<rparr>"
  let ?cm = "?ca\<lparr>socket := (socket ?ca)\<lparr>written :=
                    written (socket ?ca) @ map (\<lambda>m. ''Echo: '' @ m) ms\<rparr>\<rparr>"
  let ?start = "frameRead (soInit sock) [[]] \<lparr>data = \<lparr>region = 0, blen = 0\<rparr>, length' = 0\<rparr>"
  have "?d \<noteq> []" by (simp add: quitMsg_def)
  from frame_first_chunk [OF this, of sock] obtain h1 b1 where
    a: "wf h1 b1" "valid h1 b1 = concat ms @ (quitMsg @ rest)"
       "frameDeliver ?start (Sock (OnData ?d)) = frameDrain ?ca h1 b1" by auto
  have ea: "err ?ca = None" by simp
  from frame_drain_all [OF a(1) ea a(2) assms] obtain h2 b2 where
    m: "foldl frameDeliver (frameDrain ?ca h1 b1) (replicate (length ms) (WriteCb None))
          = frameDrain ?cm h2 b2" "wf h2 b2" "valid h2 b2 = quitMsg @ rest" by blast
  have fq: "firstMsg (valid h2 b2) = quitMsg"
    unfolding m(3) by (rule firstMsg_shaped) (simp_all add: quitMsg_def)
  have lq: "LF \<in> set (valid h2 b2)" unfolding m(3) by (simp add: quitMsg_def)
  have em: "err ?cm = None" by simp
  from frame_message [OF m(2) em lq] obtain h3 b3 where
    q: "frameDrain ?cm h2 b2 =
          ((?cm\<lparr>socket := (socket ?cm)\<lparr>written := written (socket ?cm) @ [''Bye.'' @ [LF]]\<rparr>\<rparr>,
            h3, b3), FAwaitWrite True)"
    unfolding fq by (auto simp: frameReply_def)
  have "foldl frameDeliver ?start
          (Sock (OnData ?d) # replicate (Suc (length ms)) (WriteCb None))
      = frameDeliver (foldl frameDeliver (frameDrain ?ca h1 b1) (replicate (length ms) (WriteCb None)))
          (WriteCb None)"
  proof -
    have "replicate (Suc (length ms)) (WriteCb None)
            = replicate (length ms) (WriteCb None) @ [WriteCb None :: input]"
      by (simp add: replicate_append_same)
    then show ?thesis using a(3) by (simp del: replicate_Suc)
  qed
  also have "\<dots> = ((?cm\<lparr>socket := (socket ?cm)\<lparr>written := written (socket ?cm) @ [''Bye.'' @ [LF]]\<rparr>\<rparr>,
            h3, b3), FFinished (Resolved ()))"
    unfolding m(1) q by (simp add: writeCallback_def)
  finally show ?thesis by (simp add: frameServe_def frameClose_def)
qed

text \<open>
  C2. The loop extracts a complete message, the bytes buffered up to and including the
  first delimiter, while no error is latched. If the message is "quit" and a newline, the
  reply handed to the socket is "Bye." and a newline, and once the transport has accepted
  it the loop ends and the socket is destroyed. For any other message the reply is
  "Echo: " followed by the bytes of the message, delimiter included, and once the
  transport has accepted it the loop goes on with the rest of the buffer.
\<close>

theorem framing_loop_replies:
  assumes "wf h b" and "err c = None" and "LF \<in> set (valid h b)"
  shows "\<exists>h' b'.
           wf h' b'
         \<and> valid h' b' = drop (length (firstMsg (valid h b))) (valid h b)
         \<and> (if firstMsg (valid h b) = ''quit'' @ [LF] then
               frameDrain c h b =
                 ((c\<lparr>socket := (socket c)\<lparr>written := written (socket c) @ [''Bye.'' @ [LF]]\<rparr>\<rparr>,
                   h', b'), FAwaitWrite True)
             \<and> frameClose (frameDeliver (frameDrain c h b) (WriteCb None)) =
                 ((c\<lparr>socket := (socket c)\<lparr>written := written (socket c) @ [''Bye.'' @ [LF]],
                                            destroyed := True\<rparr>\<rparr>,
                   h', b'), FFinished (Resolved ()))
             else
               frameDrain c h b =
                 ((c\<lparr>socket := (socket c)\<lparr>written :=
                       written (socket c) @ [''Echo: '' @ firstMsg (valid h b)]\<rparr>\<rparr>,
                   h', b'), FAwaitWrite False)
             \<and> frameDeliver (frameDrain c h b) (WriteCb None) =
                 frameDrain
                   (c\<lparr>socket := (socket c)\<lparr>written :=
                       written (socket c) @ [''Echo: '' @ firstMsg (valid h b)]\<rparr>\<rparr>) h' b')"
proof -
  let ?m = "firstMsg (valid h b)"
  from frame_message [OF assms] obtain h' b' where
    f: "wf h' b'" "valid h' b' = drop (length ?m) (valid h b)"
       "frameDrain c h b =
          ((c\<lparr>socket := (socket c)\<lparr>written := written (socket c) @ [frameReply ?m]\<rparr>\<rparr>, h', b'),
           FAwaitWrite (?m = quitMsg))" by blast
  show ?thesis
  proof (cases "?m = ''quit'' @ [LF]")
    case True
    then have d: "frameDrain c h b =
        ((c\<lparr>socket := (socket c)\<lparr>written := written (socket c) @ [''Bye.'' @ [LF]]\<rparr>\<rparr>, h', b'),
         FAwaitWrite True)"
      using f(3) by (simp add: frameReply_def quitMsg_def)
    have "frameClose (frameDeliver (frameDrain c h b) (WriteCb None)) =
        ((c\<lparr>socket := (socket c)\<lparr>written := written (socket c) @ [''Bye.'' @ [LF]],
                                   destroyed := True\<rparr>\<rparr>, h', b'), FFinished (Resolved ()))"
      unfolding d frame_ack by (simp add: frameClose_def)
    with d f(1,2) True show ?thesis by auto
  next
    case False
    then have d: "frameDrain c h b =
        ((c\<lparr>socket := (socket c)\<lparr>written := written (socket c) @ [''Echo: '' @ ?m]\<rparr>\<rparr>, h', b'),
         FAwaitWrite False)"
      using f(3) by (simp add: frameReply_def quitMsg_def)
    have "frameDeliver (frameDrain c h b) (WriteCb None) =
        frameDrain (c\<lparr>socket := (socket c)\<lparr>written := written (socket c) @ [''Echo: '' @ ?m]\<rparr>\<rparr>) h' b'"
      unfolding d frame_ack by simp
    with d f(1,2) False show ?thesis by auto
  qed
qed

theorem framing_loop_replies_witness:
  "wf [''Hello'' @ [LF] @ ''quit'' @ [LF]] \<lparr>data = \<lparr>region = 0, blen = 11\<rparr>, length' = 11\<rparr>
   \<and> LF \<in> set (valid [''Hello'' @ [LF] @ ''quit'' @ [LF]] \<lparr>data = \<lparr>region = 0, blen = 11\<rparr>, length' = 11\<rparr>)
   \<and> firstMsg (valid [''Hello'' @ [LF] @ ''quit'' @ [LF]] \<lparr>data = \<lparr>region = 0, blen = 11\<rparr>, length' = 11\<rparr>)
       = ''Hello'' @ [LF]
   \<and> frameDrain
        \<lparr>socket = \<lparr>flowing = False, written = [], destroyed = False\<rparr>,
           err = None, ended = False, reader = None\<rparr>
        [''Hello'' @ [LF] @ ''quit'' @ [LF]] \<lparr>data = \<lparr>region = 0, blen = 11\<rparr>, length' = 11\<rparr>
       = ((\<lparr>socket = \<lparr>flowing = False, written = [''Echo: Hello'' @ [LF]], destroyed = False\<rparr>,
             err = None, ended = False, reader = None\<rparr>,
           [''quit'' @ [LF, LF] @ ''quit'' @ [LF], ''Hello'' @ [LF]],
           \<lparr>data = \<lparr>region = 0, blen = 11\<rparr>, length' = 5\<rparr>), FAwaitWrite False)
   \<and> wf [''quit'' @ [LF, LF] @ ''quit'' @ [LF], ''Hello'' @ [LF]]
        \<lparr>data = \<lparr>region = 0, blen = 11\<rparr>, length' = 5\<rparr>
   \<and> LF \<in> set (valid [''quit'' @ [LF, LF] @ ''quit'' @ [LF], ''Hello'' @ [LF]]
                  \<lparr>data = \<lparr>region = 0, blen = 11\<rparr>, length' = 5\<rparr>)
   \<and> firstMsg (valid [''quit'' @ [LF, LF] @ ''quit'' @ [LF], ''Hello'' @ [LF]]
                  \<lparr>data = \<lparr>region = 0, blen = 11\<rparr>, length' = 5\<rparr>) = ''quit'' @ [LF]
   \<and> frameClose (frameDeliver
        (frameDrain
           \<lparr>socket = \<lparr>flowing = False, written = [''Echo: Hello'' @ [LF]], destroyed = False\<rparr>,
              err = None, ended = False, reader = None\<rparr>
           [''quit'' @ [LF, LF] @ ''quit'' @ [LF], ''Hello'' @ [LF]]
           \<lparr>data = \<lparr>region = 0, blen = 11\<rparr>, length' = 5\<rparr>) (WriteCb None))
       = ((\<lparr>socket = \<lparr>flowing = False, written = [''Echo: Hello'' @ [LF], ''Bye.'' @ [LF]],
                       destroyed = True\<rparr>,
             err = None, ended = False, reader = None\<rparr>,
           [''quit'' @ [LF, LF] @ ''quit'' @ [LF], ''Hello'' @ [LF], ''quit'' @ [LF]],
           \<lparr>data = \<lparr>region = 0, blen = 11\<rparr>, length' = 0\<rparr>), FFinished (Resolved ()))
   \<and> written (socket (fst (fst (frameServe \<lparr>flowing = False, written = [], destroyed = False\<rparr>
        [Sock (OnData (''hell'' @ [LF] @ ''1234'' @ [LF] @ ''quit'' @ [LF])),
         WriteCb None, WriteCb None, WriteCb None]))))
       = [''Echo: hell'' @ [LF], ''Echo: 1234'' @ [LF], ''Bye.'' @ [LF]]
   \<and> destroyed (socket (fst (fst (frameServe \<lparr>flowing = False, written = [], destroyed = False\<rparr>
        [Sock (OnData (''hell'' @ [LF] @ ''1234'' @ [LF] @ ''quit'' @ [LF])),
         WriteCb None, WriteCb None, WriteCb None]))))"
proof -
  let ?c = "\<lparr>socket = \<lparr>flowing = False, written = [], destroyed = False\<rparr>,
           err = None, ended = False, reader = None\<rparr>"
  let ?ce = "\<lparr>socket = \<lparr>flowing = False, written = [''Echo: Hello'' @ [LF]], destroyed = False\<rparr>,
              err = None, ended = False, reader = None\<rparr>"
  let ?cb = "\<lparr>socket = \<lparr>flowing = False, written = [''Echo: Hello'' @ [LF], ''Bye.'' @ [LF]],
                       destroyed = True\<rparr>,
             err = None, ended = False, reader = None\<rparr>"
  let ?h = "[''Hello'' @ [LF] @ ''quit'' @ [LF]]"
  let ?b = "\<lparr>data = \<lparr>region = 0, blen = 11\<rparr>, length' = 11\<rparr>"
  let ?hq = "[''quit'' @ [LF, LF] @ ''quit'' @ [LF], ''Hello'' @ [LF]]"
  let ?bq = "\<lparr>data = \<lparr>region = 0, blen = 11\<rparr>, length' = 5\<rparr>"
  let ?hf = "[''quit'' @ [LF, LF] @ ''quit'' @ [LF], ''Hello'' @ [LF], ''quit'' @ [LF]]"
  let ?bf = "\<lparr>data = \<lparr>region = 0, blen = 11\<rparr>, length' = 0\<rparr>"
  have w: "wf ?h ?b" by (simp add: wf_def allocated_def cells_def)
  have e: "err ?c = None" by simp
  have v: "valid ?h ?b = ''Hello'' @ [LF] @ ''quit'' @ [LF]"
    by (simp add: valid_def bytes_def subarray0_def rel_index_def cells_def)
  have l: "LF \<in> set (valid ?h ?b)" unfolding v by simp
  have m: "firstMsg (valid ?h ?b) = ''Hello'' @ [LF]" unfolding v by (simp add: firstMsg_def)
  have wq: "wf ?hq ?bq" by (simp add: wf_def allocated_def cells_def)
  have eq: "err ?ce = None" by simp
  have vq: "valid ?hq ?bq = ''quit'' @ [LF]"
    by (simp add: valid_def bytes_def subarray0_def rel_index_def cells_def)
  have lq: "LF \<in> set (valid ?hq ?bq)" unfolding vq by simp
  have mq: "firstMsg (valid ?hq ?bq) = ''quit'' @ [LF]" unfolding vq by (simp add: firstMsg_def)
  have c1: "cutMessage ?h ?b = (?hq, ?bq, Some \<lparr>region = 1, blen = 6\<rparr>)"
    by (simp add: buf_eval)
  have c2: "cutMessage ?hq ?bq = (?hf, ?bf, Some \<lparr>region = 2, blen = 5\<rparr>)"
    by (simp add: buf_eval)
  have d: "frameDrain ?c ?h ?b = ((?ce, ?hq, ?bq), FAwaitWrite False)"
  proof -
    from framing_loop_replies [OF w e l] obtain h' b' where
      A: "frameDrain ?c ?h ?b = ((?ce, h', b'), FAwaitWrite False)"
      unfolding m by auto
    have "snd (fst (frameDrain ?c ?h ?b)) = (?hq, ?bq)"
      unfolding frameDrain_def c1
      by (simp add: frameProcess_def soWrite_def split: prod.splits)
    then have hh: "h' = ?hq" and bb: "b' = ?bq" unfolding A by simp_all
    from A show ?thesis unfolding hh bb .
  qed
  have f: "frameClose (frameDeliver (frameDrain ?ce ?hq ?bq) (WriteCb None))
             = ((?cb, ?hf, ?bf), FFinished (Resolved ()))"
  proof -
    from framing_loop_replies [OF wq eq lq] obtain h' b' where
      A: "frameDrain ?ce ?hq ?bq =
         ((\<lparr>socket = \<lparr>flowing = False, written = [''Echo: Hello'' @ [LF], ''Bye.'' @ [LF]],
                       destroyed = False\<rparr>, err = None, ended = False, reader = None\<rparr>, h', b'),
          FAwaitWrite True)"
      and B: "frameClose (frameDeliver (frameDrain ?ce ?hq ?bq) (WriteCb None))
             = ((?cb, h', b'), FFinished (Resolved ()))"
      unfolding mq by auto
    have "snd (fst (frameDrain ?ce ?hq ?bq)) = (?hf, ?bf)"
      unfolding frameDrain_def c2
      by (simp add: frameProcess_def soWrite_def split: prod.splits)
    then have hh: "h' = ?hf" and bb: "b' = ?bf" unfolding A by simp_all
    from B show ?thesis unfolding hh bb .
  qed
  have s: "frameServe \<lparr>flowing = False, written = [], destroyed = False\<rparr>
        [Sock (OnData (''hell'' @ [LF] @ ''1234'' @ [LF] @ ''quit'' @ [LF])),
         WriteCb None, WriteCb None, WriteCb None]
      = ((\<lparr>socket = \<lparr>flowing = False,
            written = [''Echo: hell'' @ [LF], ''Echo: 1234'' @ [LF], ''Bye.'' @ [LF]],
            destroyed = True\<rparr>, err = None, ended = False, reader = None\<rparr>,
          [[], ''quit'' @ [LF] @ ''quit'' @ [LF] @ ''quit'' @ [LF] @ replicate 17 NUL,
           ''hell'' @ [LF], ''1234'' @ [LF], ''quit'' @ [LF]],
          \<lparr>data = \<lparr>region = 1, blen = 32\<rparr>, length' = 0\<rparr>), FFinished (Resolved ()))"
    by (simp add: frame_eval buf_eval conn_eval)
  have s1: "written (socket (fst (fst (frameServe \<lparr>flowing = False, written = [], destroyed = False\<rparr>
        [Sock (OnData (''hell'' @ [LF] @ ''1234'' @ [LF] @ ''quit'' @ [LF])),
         WriteCb None, WriteCb None, WriteCb None]))))
       = [''Echo: hell'' @ [LF], ''Echo: 1234'' @ [LF], ''Bye.'' @ [LF]]"
    unfolding s by simp
  have s2: "destroyed (socket (fst (fst (frameServe \<lparr>flowing = False, written = [], destroyed = False\<rparr>
        [Sock (OnData (''hell'' @ [LF] @ ''1234'' @ [LF] @ ''quit'' @ [LF])),
         WriteCb None, WriteCb None, WriteCb None]))))"
    unfolding s by simp
  show ?thesis by (intro conjI w l m d wq lq mq f s1 s2)
qed

end
